theory Spec2Isabelle
  imports Main "HOL-Library.Word" "HOL-Library.AList"
begin

text \<open>
  A model of \<open>src/cloneWebsite.js\<close>: the robots.txt parser and predicate, the two path
  mappers, the rewriting of a fetched document, the crawl loop, the download of the
  assets and the result record. Exceptions are values of a sum type, the mutable sets and
  the queue are fields of a state that is passed along, and what the program takes from
  its libraries and from the outside world is a parameter.
\<close>

section \<open>JavaScript strings\<close>

text \<open>
  Strings are modelled as \<open>string\<close>, one \<open>char\<close> per code unit below 256. The
  helpers follow \<open>String.prototype\<close>: \<open>startsWith\<close>, \<open>endsWith\<close>, \<open>includes\<close>,
  \<open>split\<close> with a non-empty separator, \<open>trim\<close> and \<open>Array.prototype.join\<close>.
\<close>

definition startsWith :: "string \<Rightarrow> string \<Rightarrow> bool" where
  "startsWith s p = (take (length p) s = p)"

definition endsWith :: "string \<Rightarrow> string \<Rightarrow> bool" where
  "endsWith s p = (length p \<le> length s \<and> drop (length s - length p) s = p)"

fun includesStr :: "string \<Rightarrow> string \<Rightarrow> bool" where
  "includesStr [] p = (p = [])"
| "includesStr (c # cs) p = (startsWith (c # cs) p \<or> includesStr cs p)"

text \<open>\<open>s.split(c)\<close> for a separator of one character.\<close>

fun splitChar :: "char \<Rightarrow> string \<Rightarrow> string list" where
  "splitChar c [] = [[]]"
| "splitChar c (x # xs) =
     (if x = c then [] # splitChar c xs
      else (case splitChar c xs of
              [] \<Rightarrow> [[x]]
            | y # ys \<Rightarrow> (x # y) # ys))"

text \<open>
  \<open>s.split(sep)\<close> for a longer separator: \<open>k\<close> counts the characters of a matched
  separator still to be skipped, \<open>cur\<close> is the piece being read, reversed.
\<close>

fun splitFrom :: "string \<Rightarrow> nat \<Rightarrow> string \<Rightarrow> string \<Rightarrow> string list" where
  "splitFrom sep k cur [] = [rev cur]"
| "splitFrom sep k cur (c # cs) =
     (if 0 < k then splitFrom sep (k - 1) cur cs
      else if startsWith (c # cs) sep then rev cur # splitFrom sep (length sep - 1) [] cs
      else splitFrom sep 0 (c # cur) cs)"

definition splitStr :: "string \<Rightarrow> string \<Rightarrow> string list" where
  "splitStr sep s = splitFrom sep 0 [] s"

fun joinWith :: "string \<Rightarrow> string list \<Rightarrow> string" where
  "joinWith sep [] = []"
| "joinWith sep [x] = x"
| "joinWith sep (x # y # ys) = x @ sep @ joinWith sep (y # ys)"

definition isSpace :: "char \<Rightarrow> bool" where
  "isSpace c = (c \<in> set [CHR 0x09, CHR 0x0A, CHR 0x0B, CHR 0x0C, CHR 0x0D, CHR '' '', CHR 0xA0])"

definition trim :: "string \<Rightarrow> string" where
  "trim s = rev (dropWhile isSpace (rev (dropWhile isSpace s)))"

text \<open>
  \<open>s.split(/\s+/)\<close> on a trimmed string: the maximal runs of non-space characters.
  For the empty string JavaScript returns \<open>[""]\<close>; here the list is empty, and the one
  caller tests the first piece for emptiness.
\<close>

fun wsTokens :: "string \<Rightarrow> string \<Rightarrow> string list" where
  "wsTokens cur [] = (if cur = [] then [] else [rev cur])"
| "wsTokens cur (c # cs) =
     (if isSpace c then (if cur = [] then wsTokens [] cs else rev cur # wsTokens [] cs)
      else wsTokens (c # cur) cs)"

section \<open>The \<open>path\<close> module (POSIX)\<close>

text \<open>
  \<open>path.basename\<close>, \<open>path.extname\<close> and \<open>path.join\<close> of Node, in their POSIX form.
  \<open>basename\<close> ignores trailing separators and returns what follows the last remaining
  one. \<open>extname\<close> is taken from that last component: from its last dot to its end, and
  empty when there is no dot, when the last dot is the first character, or when the
  component is \<open>..\<close>.
\<close>

definition pathBasename :: "string \<Rightarrow> string" where
  "pathBasename p =
     rev (takeWhile (\<lambda>c. c \<noteq> CHR ''/'') (dropWhile (\<lambda>c. c = CHR ''/'') (rev p)))"

definition extname :: "string \<Rightarrow> string" where
  "extname p =
     (let base = pathBasename p;
          afterDot = rev (takeWhile (\<lambda>c. c \<noteq> CHR ''.'') (rev base));
          beforeDot = take (length base - length afterDot - 1) base
      in if CHR ''.'' \<notin> set base then []
         else if beforeDot = [] then []
         else if base = ''..'' then []
         else CHR ''.'' # afterDot)"

text \<open>
  \<open>normalizeString\<close>: the components are read from the left onto a stack (kept in
  order). Empty components and \<open>.\<close> are dropped; \<open>..\<close> removes the component before it
  when there is one that is not itself \<open>..\<close>, and is otherwise kept only for a relative
  path.
\<close>

fun normalizeSegments :: "bool \<Rightarrow> string list \<Rightarrow> string list \<Rightarrow> string list" where
  "normalizeSegments allowAboveRoot res [] = res"
| "normalizeSegments allowAboveRoot res (seg # segs) =
     (if seg = [] \<or> seg = ''.'' then normalizeSegments allowAboveRoot res segs
      else if seg = ''..'' then
        (if res \<noteq> [] \<and> last res \<noteq> ''..''
         then normalizeSegments allowAboveRoot (butlast res) segs
         else if allowAboveRoot then normalizeSegments allowAboveRoot (res @ [''..'']) segs
         else normalizeSegments allowAboveRoot res segs)
      else normalizeSegments allowAboveRoot (res @ [seg]) segs)"

definition pathNormalize :: "string \<Rightarrow> string" where
  "pathNormalize p =
     (if p = [] then ''.''
      else
        let isAbsolute = startsWith p ''/'';
            trailingSeparator = endsWith p ''/'';
            body = joinWith ''/'' (normalizeSegments (\<not> isAbsolute) [] (splitChar CHR ''/'' p))
        in if body = [] then
             (if isAbsolute then ''/'' else if trailingSeparator then ''./'' else ''.'')
           else (if isAbsolute then ''/'' else []) @ body
                  @ (if trailingSeparator then ''/'' else []))"

definition pathJoin :: "string list \<Rightarrow> string" where
  "pathJoin args =
     (let parts = filter (\<lambda>a. a \<noteq> []) args
      in if parts = [] then ''.'' else pathNormalize (joinWith ''/'' parts))"

section \<open>URLs\<close>

text \<open>
  A parsed \<open>URL\<close> object. \<open>hostPart\<close> is what the serialisation puts between the scheme
  and the path (\<open>//host:port\<close>, with credentials when present). \<open>query\<close> and \<open>fragment\<close>
  are absent (\<open>None\<close>) or hold the text after \<open>?\<close> and \<open>#\<close>; assigning the empty string
  to \<open>search\<close> or \<open>hash\<close> makes them absent. \<open>href\<close> is the serialisation.
\<close>

record url =
  protocol :: string
  hostPart :: string
  pathname :: string
  query :: "string option"
  fragment :: "string option"
  origin :: string

definition href :: "url \<Rightarrow> string" where
  "href u =
     protocol u @ hostPart u @ pathname u
       @ (case query u of None \<Rightarrow> [] | Some q \<Rightarrow> CHR ''?'' # q)
       @ (case fragment u of None \<Rightarrow> [] | Some f \<Rightarrow> CHR ''#'' # f)"

definition clearSearchAndHash :: "url \<Rightarrow> url" where
  "clearSearchAndHash u = u\<lparr>query := None, fragment := None\<rparr>"

section \<open>The environment of a clone\<close>

text \<open>
  Everything the program takes from outside the repository is a field of the
  environment: the URL parser (\<open>new URL(input, base)\<close>, \<open>None\<close> when it throws), MD5,
  \<open>decodeURIComponent\<close> (\<open>None\<close> when it throws), \<open>parseInt\<close> (\<open>None\<close> for NaN), the HTML
  parser, the network and the file system. A fetch is identified by the call site and the
  URL; \<open>None\<close> is a rejected fetch (network error or timeout).
\<close>

datatype fetchSite = RobotsFetch | PageFetch | AssetFetch

record response =
  ok :: bool
  contentType :: "string option"
  body :: "string option"

record element =
  tag :: string
  attrs :: "(string \<times> string) list"

record env =
  parseURL :: "string \<Rightarrow> string option \<Rightarrow> url option"
  md5 :: "string \<Rightarrow> 128 word"
  decodeURIComponent :: "string \<Rightarrow> string option"
  parseInt :: "string \<Rightarrow> int option"
  cheerioLoad :: "string \<Rightarrow> element list"
  fetch :: "fetchSite \<Rightarrow> string \<Rightarrow> response option"
  emptyDirOk :: "string \<Rightarrow> bool"
  writeOk :: "string \<Rightarrow> bool"
  cwd :: string

record options =
  outDir :: string
  maxPages :: int
  mirrorExternalAssets :: bool
  respectRobots :: bool

datatype error =
    InvalidTargetUrl
  | InvalidUrl
  | UriMalformed
  | OutputDirError
  | BodyReadError
  | PageWriteError

section \<open>Robots policy\<close>

record robotsRules =
  disallowedPaths :: "string list"
  crawlDelay :: int

definition emptyRules :: robotsRules where
  "emptyRules = \<lparr>disallowedPaths = [], crawlDelay = 0\<rparr>"

text \<open>\<open>isUrlAllowed\<close>: \<open>new URL(url)\<close> can throw, so the result is a sum.\<close>

definition disallowedBy :: "string \<Rightarrow> string \<Rightarrow> bool" where
  "disallowedBy pathname' path =
     (if endsWith path ''*'' then startsWith pathname' (butlast path)
      else pathname' = path \<or> startsWith pathname' (path @ ''/''))"

definition isUrlAllowed :: "env \<Rightarrow> string \<Rightarrow> string list \<Rightarrow> error + bool" where
  "isUrlAllowed e u paths =
     (case parseURL e u None of
        None \<Rightarrow> Inl InvalidUrl
      | Some parsed \<Rightarrow> Inr (\<not> list_ex (disallowedBy (pathname parsed)) paths))"

section \<open>Path mappers\<close>

definition pathSegments :: "string \<Rightarrow> string list" where
  "pathSegments p = filter (\<lambda>s. s \<noteq> []) (splitChar CHR ''/'' p)"

definition hexDigit :: "nat \<Rightarrow> char" where
  "hexDigit n = ''0123456789abcdef'' ! (n mod 16)"

text \<open>\<open>digest("hex")\<close>: the 32 hexadecimal digits of the 128-bit digest, high nibble first.\<close>

definition hexDigest :: "128 word \<Rightarrow> string" where
  "hexDigest w = map (\<lambda>i. hexDigit (unat (drop_bit (4 * (31 - i)) w))) [0..<32]"

definition outputDir :: "env \<Rightarrow> options \<Rightarrow> string" where
  "outputDir e opts = pathJoin [cwd e, outDir opts]"

definition localizeAssetPath :: "env \<Rightarrow> url \<Rightarrow> string" where
  "localizeAssetPath e u =
     (let urlPath = joinWith ''_'' (pathSegments (pathname u));
          base = pathBasename (if urlPath \<noteq> [] then urlPath else ''asset'');
          hash = take 6 (hexDigest (md5 e (href u)))
      in ''assets/'' @ hash @ ''-'' @ base)"

definition mapTargetUrlToFilePath :: "env \<Rightarrow> options \<Rightarrow> url \<Rightarrow> string" where
  "mapTargetUrlToFilePath e opts u =
     (let p = pathname u;
          p' = (if endsWith p ''/'' then p @ ''index.html''
                else if extname p = [] then p @ ''/index.html''
                else p)
      in pathJoin [outputDir e opts, dropWhile (\<lambda>c. c = CHR ''/'') p'])"

section \<open>Parsing robots.txt\<close>

text \<open>
  \<open>line.split(':')[1].trim()\<close>: \<open>None\<close> when there is no second piece (\<open>trim\<close> of
  \<open>undefined\<close> throws; the caller's \<open>try\<close> catches it).
\<close>

definition fieldValue :: "string \<Rightarrow> string option" where
  "fieldValue line =
     (case splitChar CHR '':'' line of
        _ # v # _ \<Rightarrow> Some (trim v)
      | _ \<Rightarrow> None)"

definition truthy :: "string option \<Rightarrow> bool" where
  "truthy v = (case v of None \<Rightarrow> False | Some s \<Rightarrow> s \<noteq> [])"

fun parseRobotsLines ::
  "env \<Rightarrow> string \<Rightarrow> string option \<Rightarrow> string list \<Rightarrow> int \<Rightarrow> string list \<Rightarrow> robotsRules option"
where
  "parseRobotsLines e userAgent currentUserAgent dis delay [] =
     Some \<lparr>disallowedPaths = dis, crawlDelay = delay\<rparr>"
| "parseRobotsLines e userAgent currentUserAgent dis delay (line # lines) =
     (if startsWith line ''User-agent:'' then
        (case fieldValue line of
           None \<Rightarrow> None
         | Some agent \<Rightarrow>
             parseRobotsLines e userAgent
               (if agent = ''*'' \<or> agent = userAgent then Some agent else None) dis delay lines)
      else if truthy currentUserAgent \<and> startsWith line ''Disallow:'' then
        (case fieldValue line of
           None \<Rightarrow> None
         | Some path \<Rightarrow>
             parseRobotsLines e userAgent currentUserAgent
               (if path \<noteq> [] then dis @ [path] else dis) delay lines)
      else if truthy currentUserAgent \<and> startsWith line ''Crawl-delay:'' then
        (case fieldValue line of
           None \<Rightarrow> None
         | Some v \<Rightarrow>
             parseRobotsLines e userAgent currentUserAgent dis
               (case parseInt e v of None \<Rightarrow> 0 | Some n \<Rightarrow> n) lines)
      else parseRobotsLines e userAgent currentUserAgent dis delay lines)"

definition parseRobotsForUserAgent :: "env \<Rightarrow> string \<Rightarrow> string \<Rightarrow> robotsRules option" where
  "parseRobotsForUserAgent e robotsText userAgent =
     parseRobotsLines e userAgent None [] 0 (map trim (splitChar CHR 0x0A robotsText))"

text \<open>
  \<open>parseRobots\<close>: the whole body is inside \<open>try\<close>, and the \<open>catch\<close> returns the empty
  rules, so the function has no error result.
\<close>

definition parseRobots :: "env \<Rightarrow> url \<Rightarrow> robotsRules" where
  "parseRobots e baseUrl =
     (case parseURL e ''/robots.txt'' (Some (href baseUrl)) of
        None \<Rightarrow> emptyRules
      | Some robotsUrl \<Rightarrow>
          (case fetch e RobotsFetch (href robotsUrl) of
             None \<Rightarrow> emptyRules
           | Some r \<Rightarrow>
               if \<not> ok r then emptyRules
               else (case body r of
                       None \<Rightarrow> emptyRules
                     | Some robotsText \<Rightarrow>
                         (case parseRobotsForUserAgent e robotsText ''WebsiteCloner'' of
                            None \<Rightarrow> emptyRules
                          | Some rules \<Rightarrow> rules))))"

section \<open>Rewriting a document\<close>

text \<open>
  A loaded document is the list of its elements in document order; a selector picks the
  elements it matches, in that order, and the handlers change attributes only.
\<close>

definition getAttr :: "element \<Rightarrow> string \<Rightarrow> string option" where
  "getAttr el name = map_of (attrs el) name"

definition setAttr :: "element \<Rightarrow> string \<Rightarrow> string \<Rightarrow> element" where
  "setAttr el name v = el\<lparr>attrs := AList.update name v (attrs el)\<rparr>"

definition removeAttrs :: "element \<Rightarrow> string list \<Rightarrow> element" where
  "removeAttrs el names = el\<lparr>attrs := filter (\<lambda>kv. fst kv \<notin> set names) (attrs el)\<rparr>"

text \<open>A \<open>Set\<close> of strings, in insertion order.\<close>

definition setAdd :: "string \<Rightarrow> string list \<Rightarrow> string list" where
  "setAdd x xs = (if x \<in> set xs then xs else xs @ [x])"

definition bindE :: "'e + 'a \<Rightarrow> ('a \<Rightarrow> 'e + 'b) \<Rightarrow> 'e + 'b" where
  "bindE m f = (case m of Inl err \<Rightarrow> Inl err | Inr a \<Rightarrow> f a)"

fun forEachElement ::
  "(element \<Rightarrow> bool) \<Rightarrow> (element \<Rightarrow> 's \<Rightarrow> error + element \<times> 's) \<Rightarrow> element list \<Rightarrow> 's
     \<Rightarrow> error + element list \<times> 's"
where
  "forEachElement sel f [] s = Inr ([], s)"
| "forEachElement sel f (el # els) s =
     (case (if sel el then f el s else Inr (el, s)) of
        Inl err \<Rightarrow> Inl err
      | Inr (el', s') \<Rightarrow>
          (case forEachElement sel f els s' of
             Inl err \<Rightarrow> Inl err
           | Inr (els', s'') \<Rightarrow> Inr (el' # els', s'')))"

subsection \<open>Images\<close>

text \<open>
  The \<open>try\<close> block of the image-proxy branch up to \<open>new URL\<close>: \<open>None\<close> when an index is
  out of range, \<open>decodeURIComponent\<close> throws or the URL does not parse. Nothing has been
  changed when that happens, and the \<open>catch\<close> only logs.
\<close>

definition nextImageUrl :: "env \<Rightarrow> string \<Rightarrow> string \<Rightarrow> url option" where
  "nextImageUrl e v currentUrl =
     (case splitStr ''url='' v of
        _ # a # _ \<Rightarrow>
          (case splitChar CHR ''&'' a of
             b # _ \<Rightarrow>
               (case decodeURIComponent e b of
                  None \<Rightarrow> None
                | Some decodeURL \<Rightarrow> parseURL e decodeURL (Some currentUrl))
           | [] \<Rightarrow> None)
      | _ \<Rightarrow> None)"

definition rewriteImgAttr ::
  "env \<Rightarrow> string \<Rightarrow> string \<Rightarrow> element \<Rightarrow> string list \<Rightarrow> error + element \<times> string list"
where
  "rewriteImgAttr e currentUrl a el assets =
     (case getAttr el a of
        None \<Rightarrow> Inr (el, assets)
      | Some v \<Rightarrow>
          if v = [] then Inr (el, assets)
          else if includesStr v ''/_next/image'' \<and> includesStr v ''url='' then
            (case nextImageUrl e v currentUrl of
               None \<Rightarrow> Inr (el, assets)
             | Some absoluteUrl \<Rightarrow>
                 Inr (setAttr el ''src'' (localizeAssetPath e absoluteUrl),
                      setAdd (href absoluteUrl) assets))
          else if \<not> startsWith v ''data:'' then
            (case parseURL e v (Some currentUrl) of
               None \<Rightarrow> Inl InvalidUrl
             | Some absoluteUrl \<Rightarrow>
                 Inr (setAttr el ''src'' (localizeAssetPath e absoluteUrl),
                      setAdd (href absoluteUrl) assets))
          else Inr (el, assets))"

text \<open>
  \<open>url.match(/\/_next\/image\?url=([^&]+)/)\<close>: the leftmost place where the literal is
  followed by at least one character other than \<open>&\<close>; the group is the longest such run.
\<close>

fun nextImageMatch :: "string \<Rightarrow> string option" where
  "nextImageMatch [] = None"
| "nextImageMatch (c # cs) =
     (if startsWith (c # cs) ''/_next/image?url=''
         \<and> takeWhile (\<lambda>x. x \<noteq> CHR ''&'') (drop (length ''/_next/image?url='') (c # cs)) \<noteq> []
      then Some (takeWhile (\<lambda>x. x \<noteq> CHR ''&'') (drop (length ''/_next/image?url='') (c # cs)))
      else nextImageMatch cs)"

definition fixedSrcsetUrl :: "env \<Rightarrow> string \<Rightarrow> error + string" where
  "fixedSrcsetUrl e u =
     (if includesStr u ''/_next/image?url='' then
        (case nextImageMatch u of
           None \<Rightarrow> Inr u
         | Some m \<Rightarrow>
             (case decodeURIComponent e m of
                None \<Rightarrow> Inl UriMalformed
              | Some d \<Rightarrow> Inr d))
      else Inr u)"

definition srcsetEntry ::
  "env \<Rightarrow> string \<Rightarrow> string \<Rightarrow> string list \<Rightarrow> error + string \<times> string list"
where
  "srcsetEntry e currentUrl entry assets =
     (case wsTokens [] (trim entry) of
        [] \<Rightarrow> Inr (entry, assets)
      | u # descriptors \<Rightarrow>
          bindE (fixedSrcsetUrl e u) (\<lambda>fixedUrl.
            (case parseURL e fixedUrl (Some currentUrl) of
               None \<Rightarrow> Inl InvalidUrl
             | Some absoluteUrl \<Rightarrow>
                 Inr (localizeAssetPath e absoluteUrl
                        @ (case descriptors of [] \<Rightarrow> [] | d # _ \<Rightarrow> '' '' @ d),
                      setAdd (href absoluteUrl) assets))))"

fun srcsetEntries ::
  "env \<Rightarrow> string \<Rightarrow> string list \<Rightarrow> string list \<Rightarrow> error + string list \<times> string list"
where
  "srcsetEntries e currentUrl [] assets = Inr ([], assets)"
| "srcsetEntries e currentUrl (entry # entries) assets =
     (case srcsetEntry e currentUrl entry assets of
        Inl err \<Rightarrow> Inl err
      | Inr (part, assets') \<Rightarrow>
          (case srcsetEntries e currentUrl entries assets' of
             Inl err \<Rightarrow> Inl err
           | Inr (parts, assets'') \<Rightarrow> Inr (part # parts, assets'')))"

definition rewriteSrcset ::
  "env \<Rightarrow> string \<Rightarrow> element \<Rightarrow> string list \<Rightarrow> error + element \<times> string list"
where
  "rewriteSrcset e currentUrl el assets =
     (case getAttr el ''srcset'' of
        None \<Rightarrow> Inr (el, assets)
      | Some srcset \<Rightarrow>
          if srcset = [] then Inr (el, assets)
          else bindE (srcsetEntries e currentUrl (splitChar CHR '','' srcset) assets)
                 (\<lambda>(parts, assets'). Inr (setAttr el ''srcset'' (joinWith '', '' parts), assets')))"

definition rewriteImg ::
  "env \<Rightarrow> string \<Rightarrow> element \<Rightarrow> string list \<Rightarrow> error + element \<times> string list"
where
  "rewriteImg e currentUrl el assets =
     bindE (rewriteImgAttr e currentUrl ''src'' el assets) (\<lambda>(el1, assets1).
     bindE (rewriteImgAttr e currentUrl ''data-src'' el1 assets1) (\<lambda>(el2, assets2).
     bindE (rewriteSrcset e currentUrl el2 assets2) (\<lambda>(el3, assets3).
       Inr (removeAttrs el3 [''data-src'', ''data-nimg'', ''decoding'', ''loading''], assets3))))"

subsection \<open>Stylesheet links and scripts\<close>

definition rewriteRef ::
  "env \<Rightarrow> string \<Rightarrow> string \<Rightarrow> element \<Rightarrow> string list \<Rightarrow> error + element \<times> string list"
where
  "rewriteRef e currentUrl a el assets =
     (case getAttr el a of
        None \<Rightarrow> Inr (el, assets)
      | Some v \<Rightarrow>
          if v = [] \<or> startsWith v ''data:'' then Inr (el, assets)
          else (case parseURL e v (Some currentUrl) of
                  None \<Rightarrow> Inl InvalidUrl
                | Some absoluteUrl \<Rightarrow>
                    Inr (setAttr el a (localizeAssetPath e absoluteUrl),
                         setAdd (href absoluteUrl) assets)))"

subsection \<open>Anchors and the crawl state\<close>

datatype fileData = PageFile "element list" | AssetFile string

text \<open>
  The state of a crawl: the \<open>visitedPages\<close> set, the \<open>pageQueue\<close>, the \<open>assetSet\<close> and
  the files written so far, in order. Two history fields record what the program did and
  are read by no operation: \<open>pushed\<close> lists the arguments of \<open>pageQueue.push\<close>, \<open>fetched\<close>
  the URLs passed to the page \<open>fetch\<close>.
\<close>

record crawlState =
  visitedPages :: "string list"
  pageQueue :: "string list"
  assetSet :: "string list"
  written :: "(string \<times> fileData) list"
  pushed :: "string list"
  fetched :: "string list"

definition SKIPPABLE_HREF_PREFIXES :: "string list" where
  "SKIPPABLE_HREF_PREFIXES = [''#'', ''mailto:'', ''tel:'', ''javascript:'']"

definition isSkippableHref :: "string option \<Rightarrow> bool" where
  "isSkippableHref h =
     (case h of
        None \<Rightarrow> True
      | Some s \<Rightarrow> s = [] \<or> list_ex (startsWith s) SKIPPABLE_HREF_PREFIXES)"

definition prettyPathOf :: "string \<Rightarrow> string" where
  "prettyPathOf p = (if extname p = [] \<and> \<not> endsWith p ''/'' then p @ ''/'' else p)"

text \<open>
  \<open>shouldAdd\<close>: \<open>&&\<close> evaluates \<open>isUrlAllowed\<close> only when the URL is neither visited nor
  queued and robots are respected.
\<close>

definition shouldAdd :: "env \<Rightarrow> options \<Rightarrow> robotsRules \<Rightarrow> crawlState \<Rightarrow> string \<Rightarrow> error + bool" where
  "shouldAdd e opts rules s u =
     (if u \<in> set (visitedPages s) then Inr False
      else if u \<in> set (pageQueue s) then Inr False
      else if \<not> respectRobots opts then Inr True
      else isUrlAllowed e u (disallowedPaths rules))"

definition rewriteAnchor ::
  "env \<Rightarrow> options \<Rightarrow> robotsRules \<Rightarrow> string \<Rightarrow> string \<Rightarrow> element \<Rightarrow> crawlState
     \<Rightarrow> error + element \<times> crawlState"
where
  "rewriteAnchor e opts rules rootOrigin currentUrl el s =
     (case getAttr el ''href'' of
        None \<Rightarrow> Inr (el, s)
      | Some h \<Rightarrow>
          if isSkippableHref (Some h) then Inr (el, s)
          else
            (case parseURL e h (Some currentUrl) of
               None \<Rightarrow> Inl InvalidUrl
             | Some parsed \<Rightarrow>
                 if origin parsed = rootOrigin then
                   let absoluteUrl = clearSearchAndHash parsed;
                       el' = setAttr el ''href'' (prettyPathOf (pathname absoluteUrl))
                   in bindE (shouldAdd e opts rules s (href absoluteUrl)) (\<lambda>add.
                        Inr (el',
                             if add
                             then s\<lparr>pageQueue := pageQueue s @ [href absoluteUrl],
                                    pushed := pushed s @ [href absoluteUrl]\<rparr>
                             else s))
                 else Inr (el, s)))"

section \<open>The crawl\<close>

definition isImg :: "element \<Rightarrow> bool" where
  "isImg el = (tag el = ''img'')"

definition isLinkHref :: "element \<Rightarrow> bool" where
  "isLinkHref el = (tag el = ''link'' \<and> getAttr el ''href'' \<noteq> None)"

definition isScriptSrc :: "element \<Rightarrow> bool" where
  "isScriptSrc el = (tag el = ''script'' \<and> getAttr el ''src'' \<noteq> None)"

definition isAnchorHref :: "element \<Rightarrow> bool" where
  "isAnchorHref el = (tag el = ''a'' \<and> getAttr el ''href'' \<noteq> None)"

text \<open>
  The part of an iteration after the content-type test: read the body, load and rewrite
  the document, save it. Reading the body, resolving a reference and writing the page are
  outside every \<open>try\<close>.
\<close>

definition processPage ::
  "env \<Rightarrow> options \<Rightarrow> robotsRules \<Rightarrow> string \<Rightarrow> string \<Rightarrow> response \<Rightarrow> crawlState
     \<Rightarrow> error + crawlState"
where
  "processPage e opts rules rootOrigin currentUrl r s =
     (case body r of
        None \<Rightarrow> Inl BodyReadError
      | Some html \<Rightarrow>
          bindE (forEachElement isImg (rewriteImg e currentUrl) (cheerioLoad e html) (assetSet s))
            (\<lambda>(doc1, assets1).
          bindE (forEachElement isLinkHref (rewriteRef e currentUrl ''href'') doc1 assets1)
            (\<lambda>(doc2, assets2).
          bindE (forEachElement isScriptSrc (rewriteRef e currentUrl ''src'') doc2 assets2)
            (\<lambda>(doc3, assets3).
          bindE (forEachElement isAnchorHref (rewriteAnchor e opts rules rootOrigin currentUrl)
                   doc3 (s\<lparr>assetSet := assets3\<rparr>))
            (\<lambda>(doc4, s4).
          (case parseURL e currentUrl None of
             None \<Rightarrow> Inl InvalidUrl
           | Some u \<Rightarrow>
               if writeOk e (mapTargetUrlToFilePath e opts u)
               then Inr (s4\<lparr>written :=
                              written s4 @ [(mapTargetUrlToFilePath e opts u, PageFile doc4)]\<rparr>)
               else Inl PageWriteError))))))"

text \<open>
  One run of the loop body, entered with a non-empty queue. The crawl delay only
  suspends the program and is not part of the state.
\<close>

definition crawlIteration ::
  "env \<Rightarrow> options \<Rightarrow> robotsRules \<Rightarrow> string \<Rightarrow> crawlState \<Rightarrow> error + crawlState"
where
  "crawlIteration e opts rules rootOrigin s =
     (case pageQueue s of
        [] \<Rightarrow> Inr s
      | currentUrl # rest \<Rightarrow>
          if currentUrl \<in> set (visitedPages s) then Inr (s\<lparr>pageQueue := rest\<rparr>)
          else
            bindE (if respectRobots opts
                   then isUrlAllowed e currentUrl (disallowedPaths rules) else Inr True)
              (\<lambda>allowed.
                 if \<not> allowed then Inr (s\<lparr>pageQueue := rest\<rparr>)
                 else
                   let s' = s\<lparr>pageQueue := rest,
                              visitedPages := visitedPages s @ [currentUrl],
                              fetched := fetched s @ [currentUrl]\<rparr>
                   in (case fetch e PageFetch currentUrl of
                         None \<Rightarrow> Inr s'
                       | Some r \<Rightarrow>
                           if \<not> includesStr (case contentType r of None \<Rightarrow> [] | Some t \<Rightarrow> t)
                                  ''text/html''
                           then Inr s'
                           else processPage e opts rules rootOrigin currentUrl r s')))"

definition loopGuard :: "options \<Rightarrow> crawlState \<Rightarrow> bool" where
  "loopGuard opts s = (pageQueue s \<noteq> [] \<and> int (length (visitedPages s)) < maxPages opts)"

lemma bindE_simps [simp]:
  "bindE (Inl err) f = Inl err"
  "bindE (Inr a) f = f a"
  by (simp_all add: bindE_def)

lemma bindE_eq_Inr: "bindE m f = Inr y \<longleftrightarrow> (\<exists>a. m = Inr a \<and> f a = Inr y)"
  by (cases m) auto

lemma forEachElement_frame:
  assumes "\<And>el x el' x'. f el x = Inr (el', x') \<Longrightarrow> P x \<Longrightarrow> P x'"
  shows "forEachElement sel f els x = Inr (els', x') \<Longrightarrow> P x \<Longrightarrow> P x'"
proof (induction els arbitrary: x els')
  case Nil
  then show ?case by simp
next
  case (Cons el els)
  then show ?case using assms
    by (auto split: sum.splits prod.splits if_splits)
qed

lemma rewriteAnchor_frame:
  assumes "rewriteAnchor e opts rules ro cu el s = Inr (el', s')"
  shows "visitedPages s' = visitedPages s \<and> length (pageQueue s) \<le> length (pageQueue s')"
  using assms
  by (auto simp: rewriteAnchor_def Let_def bindE_eq_Inr split: option.splits if_splits)

lemma processPage_frame:
  assumes "processPage e opts rules ro cu r s = Inr s'"
  shows "visitedPages s' = visitedPages s"
proof -
  from assms obtain d3 a3 d4 s4 where
    a: "forEachElement isAnchorHref (rewriteAnchor e opts rules ro cu) d3 (s\<lparr>assetSet := a3\<rparr>)
          = Inr (d4, s4)"
    and w: "visitedPages s' = visitedPages s4"
    by (auto simp: processPage_def bindE_eq_Inr split: option.splits if_splits)
  have "visitedPages s4 = visitedPages (s\<lparr>assetSet := a3\<rparr>)"
    by (rule forEachElement_frame[where P="\<lambda>x. visitedPages x = visitedPages (s\<lparr>assetSet := a3\<rparr>)",
          OF _ a]) (auto dest: rewriteAnchor_frame)
  with w show ?thesis by simp
qed

lemma crawlIteration_progress:
  assumes "crawlIteration e opts rules ro s = Inr s'" and "pageQueue s \<noteq> []"
  shows "length (visitedPages s') = Suc (length (visitedPages s))
         \<or> (visitedPages s' = visitedPages s \<and> length (pageQueue s') < length (pageQueue s))"
  using assms
  by (auto simp: crawlIteration_def Let_def bindE_eq_Inr
           split: list.splits if_splits option.splits dest!: processPage_frame)

lemma crawlLoop_decreases:
  assumes "loopGuard opts s" and "crawlIteration e opts rules ro s = Inr s'"
  shows "nat (maxPages opts - int (length (visitedPages s')))
           < nat (maxPages opts - int (length (visitedPages s)))
         \<or> (nat (maxPages opts - int (length (visitedPages s')))
              = nat (maxPages opts - int (length (visitedPages s)))
            \<and> length (pageQueue s') < length (pageQueue s))"
proof -
  from assms(1) have q: "pageQueue s \<noteq> []" and b: "int (length (visitedPages s)) < maxPages opts"
    by (simp_all add: loopGuard_def)
  from crawlIteration_progress[OF assms(2) q] b show ?thesis by auto
qed

function crawlLoop ::
  "env \<Rightarrow> options \<Rightarrow> robotsRules \<Rightarrow> string \<Rightarrow> crawlState \<Rightarrow> error + crawlState"
where
  "crawlLoop e opts rules rootOrigin s =
     (if loopGuard opts s
      then (case crawlIteration e opts rules rootOrigin s of
              Inl err \<Rightarrow> Inl err
            | Inr s' \<Rightarrow> crawlLoop e opts rules rootOrigin s')
      else Inr s)"
  by pat_completeness auto
termination
  apply (relation "inv_image (less_than <*lex*> less_than)
         (\<lambda>(e, opts, rules, ro, s).
            (nat (maxPages opts - int (length (visitedPages s))), length (pageQueue s)))")
   apply (intro wf_inv_image wf_lex_prod wf_less_than)
  apply (frule (1) crawlLoop_decreases)
  apply auto
  done

declare crawlLoop.simps [simp del]

text \<open>The state at the head of the loop after \<open>n\<close> iterations, when the crawl gets that far.\<close>

fun crawlAfter ::
  "nat \<Rightarrow> env \<Rightarrow> options \<Rightarrow> robotsRules \<Rightarrow> string \<Rightarrow> crawlState \<Rightarrow> crawlState option"
where
  "crawlAfter 0 e opts rules rootOrigin s = Some s"
| "crawlAfter (Suc n) e opts rules rootOrigin s =
     (if loopGuard opts s
      then (case crawlIteration e opts rules rootOrigin s of
              Inl err \<Rightarrow> None
            | Inr s' \<Rightarrow> crawlAfter n e opts rules rootOrigin s')
      else None)"

section \<open>Downloading the assets\<close>

text \<open>
  Each download runs inside its own \<open>try\<close>, whose \<open>catch\<close> only logs, so a task either
  writes its file or changes nothing. The tasks share nothing but the file system; they
  are run here one after the other, in the order of the set.
\<close>

definition downloadAsset ::
  "env \<Rightarrow> options \<Rightarrow> string \<Rightarrow> (string \<times> fileData) list \<Rightarrow> string \<Rightarrow> (string \<times> fileData) list"
where
  "downloadAsset e opts rootOrigin files assetUrl =
     (case parseURL e assetUrl None of
        None \<Rightarrow> files
      | Some u \<Rightarrow>
          if protocol u \<noteq> ''http:'' \<and> protocol u \<noteq> ''https:'' then files
          else if origin u \<noteq> rootOrigin \<and> \<not> mirrorExternalAssets opts then files
          else
            (case fetch e AssetFetch assetUrl of
               None \<Rightarrow> files
             | Some r \<Rightarrow>
                 if \<not> ok r then files
                 else
                   (case body r of
                      None \<Rightarrow> files
                    | Some buffer \<Rightarrow>
                        if writeOk e (pathJoin [outputDir e opts, localizeAssetPath e u])
                        then files @ [(pathJoin [outputDir e opts, localizeAssetPath e u],
                                       AssetFile buffer)]
                        else files)))"

definition downloadAssets ::
  "env \<Rightarrow> options \<Rightarrow> string \<Rightarrow> (string \<times> fileData) list \<Rightarrow> string list \<Rightarrow> (string \<times> fileData) list"
where
  "downloadAssets e opts rootOrigin files assets =
     foldl (downloadAsset e opts rootOrigin) files assets"

section \<open>The clone operation\<close>

record statistics =
  pagesCloned :: nat
  assetsDownloaded :: nat
  maxPagesReached :: bool
  robotsRespected :: bool

record cloneResult =
  success :: bool
  outputPath :: string
  statistics :: statistics

definition initialState :: "url \<Rightarrow> crawlState" where
  "initialState root =
     \<lparr>visitedPages = [], pageQueue = [href root], assetSet = [], written = [],
      pushed = [], fetched = []\<rparr>"

text \<open>
  \<open>cloneWebsite\<close> returns the result record; the final crawl state, with the files
  written by both phases, is returned beside it. The options are given in full (the
  defaults of the parameter are the caller's concern). \<open>concurrency\<close> only bounds how many
  downloads are in flight and has no counterpart in a sequential run; the \<open>message\<close> of the
  result is a constant and is left out.
\<close>

definition cloneWebsite :: "env \<Rightarrow> string \<Rightarrow> options \<Rightarrow> error + cloneResult \<times> crawlState" where
  "cloneWebsite e targetUrl opts =
     (case parseURL e targetUrl None of
        None \<Rightarrow> Inl InvalidTargetUrl
      | Some root \<Rightarrow>
          let robotsRules = (if respectRobots opts then parseRobots e root else emptyRules)
          in if \<not> emptyDirOk e (outputDir e opts) then Inl OutputDirError
             else
               bindE (crawlLoop e opts robotsRules (origin root) (initialState root)) (\<lambda>s.
                 Inr (\<lparr>success = True,
                       outputPath = outputDir e opts,
                       statistics =
                         \<lparr>pagesCloned = length (visitedPages s),
                          assetsDownloaded = length (assetSet s),
                          maxPagesReached = (maxPages opts \<le> int (length (visitedPages s))),
                          robotsRespected = respectRobots opts\<rparr>\<rparr>,
                      s\<lparr>written :=
                          downloadAssets e opts (origin root) (written s) (assetSet s)\<rparr>)))"

definition isPageFile :: "fileData \<Rightarrow> bool" where
  "isPageFile d = (case d of PageFile _ \<Rightarrow> True | AssetFile _ \<Rightarrow> False)"

text \<open>
  The asset files among the files written, and what it means for the download of an
  asset URL to succeed with a file at path \<open>p\<close>.
\<close>

definition assetFiles :: "crawlState \<Rightarrow> (string \<times> fileData) list" where
  "assetFiles s = filter (\<lambda>f. \<not> isPageFile (snd f)) (written s)"

definition downloadSucceeds :: "env \<Rightarrow> options \<Rightarrow> string \<Rightarrow> string \<Rightarrow> bool" where
  "downloadSucceeds e opts a p =
     (\<exists>u r. parseURL e a None = Some u \<and> fetch e AssetFetch a = Some r \<and> ok r
            \<and> p = pathJoin [outputDir e opts, localizeAssetPath e u])"

text \<open>
  An environment in which nothing fails but the network: every URL parses, every
  \<open>decodeURIComponent\<close> returns, the body of every fetched page can be read and every
  write succeeds. Fetches may still be rejected or answer with any status and type, and
  the body of an asset may be unreadable.
\<close>

definition noLocalFailure :: "env \<Rightarrow> bool" where
  "noLocalFailure e =
     ((\<forall>x b. parseURL e x b \<noteq> None) \<and> (\<forall>x. decodeURIComponent e x \<noteq> None)
      \<and> (\<forall>u r. fetch e PageFetch u = Some r \<longrightarrow> body r \<noteq> None) \<and> (\<forall>p. writeOk e p))"

section \<open>Invariants of the crawl\<close>

text \<open>
  \<open>crawlInv\<close> holds at the head of the loop, \<open>midInv\<close> while the links of a page are
  processed (the page itself is then already in \<open>visitedPages\<close>). \<open>rootHref\<close> is the seed
  of the queue.
\<close>

definition midInv :: "env \<Rightarrow> options \<Rightarrow> robotsRules \<Rightarrow> string \<Rightarrow> crawlState \<Rightarrow> bool" where
  "midInv e opts rules rootHref s =
     (distinct (visitedPages s) \<and> distinct (pageQueue s)
      \<and> set (visitedPages s) \<inter> set (pageQueue s) = {}
      \<and> distinct (rootHref # pushed s)
      \<and> set (pageQueue s) \<subseteq> set (rootHref # pushed s)
      \<and> set (rootHref # pushed s) \<subseteq> set (visitedPages s) \<union> set (pageQueue s)
      \<and> rootHref \<in> set (visitedPages s)
      \<and> (respectRobots opts \<longrightarrow>
           (\<forall>u\<in>set (pushed s). isUrlAllowed e u (disallowedPaths rules) = Inr True)))"

definition crawlInv :: "env \<Rightarrow> options \<Rightarrow> robotsRules \<Rightarrow> string \<Rightarrow> crawlState \<Rightarrow> bool" where
  "crawlInv e opts rules rootHref s =
     (distinct (visitedPages s) \<and> distinct (pageQueue s)
      \<and> set (visitedPages s) \<inter> set (pageQueue s) = {}
      \<and> int (length (visitedPages s)) \<le> max 0 (maxPages opts)
      \<and> distinct (rootHref # pushed s)
      \<and> fetched s = visitedPages s
      \<and> set (pageQueue s) \<subseteq> set (rootHref # pushed s)
      \<and> (set (rootHref # pushed s) \<subseteq> set (visitedPages s) \<union> set (pageQueue s)
           \<or> (visitedPages s = [] \<and> pageQueue s = [] \<and> pushed s = []))
      \<and> (rootHref \<in> set (pageQueue s) \<longrightarrow>
            visitedPages s = [] \<and> pushed s = [] \<and> pageQueue s = [rootHref])
      \<and> (respectRobots opts \<longrightarrow>
           (\<forall>u\<in>set (pushed s). isUrlAllowed e u (disallowedPaths rules) = Inr True))
      \<and> (respectRobots opts \<longrightarrow>
           (\<forall>u\<in>set (visitedPages s). isUrlAllowed e u (disallowedPaths rules) = Inr True)))"

section \<open>An example site\<close>

text \<open>
  A site of three pages on \<open>http://a\<close>. The root page holds an image and two links, to
  \<open>/b?q=1#f\<close> and to \<open>/p/x\<close>; robots.txt disallows \<open>/p\<close>; the fetch of \<open>/b\<close> is
  rejected and the image answers 404.
\<close>

definition exUrl :: "string \<Rightarrow> string option \<Rightarrow> string option \<Rightarrow> url" where
  "exUrl p q f = \<lparr>protocol = ''http:'', hostPart = ''//a'', pathname = p, query = q,
                  fragment = f, origin = ''http://a''\<rparr>"

definition exParse :: "string \<Rightarrow> string option \<Rightarrow> url option" where
  "exParse input base = map_of
     [((''http://a/'', None), exUrl ''/'' None None),
      ((''/robots.txt'', Some ''http://a/''), exUrl ''/robots.txt'' None None),
      ((''/i.png'', Some ''http://a/''), exUrl ''/i.png'' None None),
      ((''/b?q=1#f'', Some ''http://a/''), exUrl ''/b'' (Some ''q=1'') (Some ''f'')),
      ((''/p/x'', Some ''http://a/''), exUrl ''/p/x'' None None),
      (([], Some ''http://a/''), exUrl ''/'' None None),
      ((''http://a/b'', None), exUrl ''/b'' None None),
      ((''http://a/p/x'', None), exUrl ''/p/x'' None None),
      ((''http://a/i.png'', None), exUrl ''/i.png'' None None)] (input, base)"

definition exFetch :: "fetchSite \<Rightarrow> string \<Rightarrow> response option" where
  "exFetch site u = map_of
     [((RobotsFetch, ''http://a/robots.txt''),
         \<lparr>ok = True, contentType = Some ''text/plain'',
          body = Some (''User-agent: *'' @ [CHR 0x0A] @ ''Disallow: /p'')\<rparr>),
      ((PageFetch, ''http://a/''),
         \<lparr>ok = True, contentType = Some ''text/html; charset=utf-8'', body = Some ''R''\<rparr>),
      ((AssetFetch, ''http://a/i.png''),
         \<lparr>ok = False, contentType = None, body = Some []\<rparr>)] (site, u)"

definition exDocument :: "element list" where
  "exDocument =
     [\<lparr>tag = ''img'', attrs = [(''src'', ''/i.png'')]\<rparr>,
      \<lparr>tag = ''a'', attrs = [(''href'', ''/b?q=1#f'')]\<rparr>,
      \<lparr>tag = ''a'', attrs = [(''href'', ''/p/x'')]\<rparr>]"

definition exEnv :: env where
  "exEnv = \<lparr>parseURL = exParse, md5 = (\<lambda>_. 0), decodeURIComponent = Some,
            parseInt = (\<lambda>_. None), cheerioLoad = (\<lambda>_. exDocument), fetch = exFetch,
            emptyDirOk = (\<lambda>_. True), writeOk = (\<lambda>_. True), cwd = ''/w''\<rparr>"

definition exOptions :: options where
  "exOptions = \<lparr>outDir = ''o'', maxPages = 10, mirrorExternalAssets = True,
                respectRobots = True\<rparr>"

text \<open>
  The crawl of the example: the rules read from its robots.txt, the rewritten root page,
  the state after the links of the root page and the final state; then the same crawl
  with \<open>respectRobots\<close> off, after two and after three iterations.
\<close>

definition exRoot :: url where
  "exRoot = exUrl ''/'' None None"

definition exRules :: robotsRules where
  "exRules = \<lparr>disallowedPaths = [''/p''], crawlDelay = 0\<rparr>"

definition exPage :: "element list" where
  "exPage =
     [\<lparr>tag = ''img'', attrs = [(''src'', ''assets/000000-i.png'')]\<rparr>,
      \<lparr>tag = ''a'', attrs = [(''href'', ''/b/'')]\<rparr>,
      \<lparr>tag = ''a'', attrs = [(''href'', ''/p/x/'')]\<rparr>]"

definition exFinal :: crawlState where
  "exFinal =
     \<lparr>visitedPages = [''http://a/'', ''http://a/b''], pageQueue = [],
      assetSet = [''http://a/i.png''],
      written = [(''/w/o/index.html'', PageFile exPage)],
      pushed = [''http://a/b''], fetched = [''http://a/'', ''http://a/b'']\<rparr>"

definition exMid :: crawlState where
  "exMid =
     \<lparr>visitedPages = [''http://a/''], pageQueue = [''http://a/b''],
      assetSet = [''http://a/i.png''], written = [],
      pushed = [''http://a/b''], fetched = [''http://a/'']\<rparr>"

definition exOptionsNoRobots :: options where
  "exOptionsNoRobots = exOptions\<lparr>respectRobots := False\<rparr>"

definition exNoRobots2 :: crawlState where
  "exNoRobots2 =
     \<lparr>visitedPages = [''http://a/'', ''http://a/b''], pageQueue = [''http://a/p/x''],
      assetSet = [''http://a/i.png''],
      written = [(''/w/o/index.html'', PageFile exPage)],
      pushed = [''http://a/b'', ''http://a/p/x''],
      fetched = [''http://a/'', ''http://a/b'']\<rparr>"

definition exNoRobots3 :: crawlState where
  "exNoRobots3 =
     \<lparr>visitedPages = [''http://a/'', ''http://a/b'', ''http://a/p/x''], pageQueue = [],
      assetSet = [''http://a/i.png''],
      written = [(''/w/o/index.html'', PageFile exPage)],
      pushed = [''http://a/b'', ''http://a/p/x''],
      fetched = [''http://a/'', ''http://a/b'', ''http://a/p/x'']\<rparr>"

text \<open>
  What the clone of the example returns; a link with an empty \<open>href\<close>, a \<open>mailto:\<close>
  link and a state in which \<open>http://a/b/\<close> has been visited; and the site
  with a root page whose only link is \<open>http://\<close> (which has no host and does not
  parse), with a page body that cannot be read, and with a file system that refuses
  every write.
\<close>

definition exResult :: cloneResult where
  "exResult =
     \<lparr>success = True, outputPath = ''/w/o'',
      statistics = \<lparr>pagesCloned = 2, assetsDownloaded = 1, maxPagesReached = False,
                    robotsRespected = True\<rparr>\<rparr>"

definition exEmptyAnchor :: element where
  "exEmptyAnchor = \<lparr>tag = ''a'', attrs = [(''href'', [])]\<rparr>"

definition exMailAnchor :: element where
  "exMailAnchor = \<lparr>tag = ''a'', attrs = [(''href'', ''mailto:x@a'')]\<rparr>"

definition exSlashVisited :: crawlState where
  "exSlashVisited =
     \<lparr>visitedPages = [''http://a/'', ''http://a/b/''], pageQueue = [],
      assetSet = [], written = [], pushed = [], fetched = [''http://a/'', ''http://a/b/'']\<rparr>"

definition exBrokenLink :: env where
  "exBrokenLink =
     exEnv\<lparr>cheerioLoad := (\<lambda>html. [\<lparr>tag = ''a'', attrs = [(''href'', ''http://'')]\<rparr>])\<rparr>"

definition exBodyFails :: env where
  "exBodyFails =
     exEnv\<lparr>fetch := (\<lambda>site u.
        if site = PageFetch
        then Some \<lparr>ok = True, contentType = Some ''text/html'', body = None\<rparr>
        else exFetch site u)\<rparr>"

definition exDiskFull :: env where
  "exDiskFull = exEnv\<lparr>writeOk := (\<lambda>p. False)\<rparr>"

text \<open>The example with an image that downloads.\<close>

definition exImageOk :: env where
  "exImageOk =
     exEnv\<lparr>fetch := (\<lambda>site u.
        if site = AssetFetch
        then Some \<lparr>ok = True, contentType = Some ''image/png'', body = Some ''PNG''\<rparr>
        else exFetch site u)\<rparr>"

text \<open>The same site with the network down, and with every request answered 404.\<close>

definition exOffline :: env where
  "exOffline = exEnv\<lparr>fetch := (\<lambda>site u. None)\<rparr>"

definition exNotFound :: env where
  "exNotFound = exEnv\<lparr>fetch := (\<lambda>site u.
      Some \<lparr>ok = False, contentType = Some ''text/plain'',
            body = Some (''User-agent: *'' @ [CHR 0x0A] @ ''Disallow: /'')\<rparr>)\<rparr>"

section \<open>Strings and paths: basic facts\<close>

lemma startsWith_append: "startsWith s (p @ q) \<Longrightarrow> startsWith s p"
  unfolding startsWith_def
  by (metis append_eq_conv_conj append_take_drop_id take_take)

lemma startsWith_self: "startsWith s s"
  by (simp add: startsWith_def)

lemma disallowedBy_iff:
  "disallowedBy pn p \<longleftrightarrow>
     (pn = p \<or> startsWith pn (p @ ''/'') \<or> (endsWith p ''*'' \<and> startsWith pn (butlast p)))"
proof (cases "endsWith p ''*''")
  case True
  then have "p \<noteq> []" by (auto simp: endsWith_def)
  then have p: "p = butlast p @ [last p]" by simp
  have a: "pn = p \<Longrightarrow> startsWith pn (butlast p)"
    using p startsWith_append[of p "butlast p" "[last p]"] startsWith_self[of p] by simp
  have b: "startsWith pn (p @ ''/'') \<Longrightarrow> startsWith pn (butlast p)"
    using p startsWith_append[of pn "butlast p" "[last p] @ ''/''"] by (metis append_assoc)
  show ?thesis using True a b by (auto simp: disallowedBy_def)
next
  case False
  then show ?thesis by (simp add: disallowedBy_def)
qed

lemma splitChar_nonempty: "splitChar c xs \<noteq> []"
  by (induction xs) (auto split: list.splits)

lemma splitChar_no_sep: "s \<in> set (splitChar c xs) \<Longrightarrow> c \<notin> set s"
  by (induction xs arbitrary: s) (auto split: list.splits if_splits)

lemma splitChar_id: "c \<notin> set s \<Longrightarrow> splitChar c s = [s]"
  by (induction s) (auto split: list.splits)

lemma splitChar_append: "splitChar c (a @ c # b) = splitChar c a @ splitChar c b"
  by (induction a) (auto split: list.splits simp: splitChar_nonempty)

lemma splitChar_joinWith:
  "segs \<noteq> [] \<Longrightarrow> \<forall>s\<in>set segs. c \<notin> set s \<Longrightarrow> splitChar c (joinWith [c] segs) = segs"
proof (induction "[c]" segs rule: joinWith.induct)
  case 1 then show ?case by simp
next
  case (2 x) then show ?case by (simp add: splitChar_id)
next
  case (3 x y ys)
  then show ?case by (simp add: splitChar_append splitChar_id)
qed

lemma set_joinWith: "set (joinWith sep xs) \<subseteq> set sep \<union> \<Union> (set ` set xs)"
  by (induction sep xs rule: joinWith.induct) auto

lemma joinWith_empty_iff: "\<forall>s\<in>set xs. s \<noteq> [] \<Longrightarrow> joinWith sep xs = [] \<longleftrightarrow> xs = []"
  by (induction sep xs rule: joinWith.induct) auto

lemma pathBasename_id: "CHR ''/'' \<notin> set s \<Longrightarrow> pathBasename s = s"
proof -
  assume a: "CHR ''/'' \<notin> set s"
  then have d: "dropWhile (\<lambda>c. c = CHR ''/'') (rev s) = rev s"
    by (cases "rev s") (auto)
  have t: "takeWhile (\<lambda>c. c \<noteq> CHR ''/'') (rev s) = rev s"
    using a by auto
  show ?thesis unfolding pathBasename_def d t by simp
qed

lemma hexDigit_in: "hexDigit n \<in> set ''0123456789abcdef''"
proof -
  have "n mod 16 < length ''0123456789abcdef''" by simp
  then show ?thesis unfolding hexDigit_def by (rule nth_mem)
qed

lemma length_hexDigest: "length (hexDigest w) = 32"
  by (simp add: hexDigest_def)

lemma set_hexDigest: "set (hexDigest w) \<subseteq> set ''0123456789abcdef''"
  unfolding hexDigest_def using hexDigit_in by (auto simp del: set_simps)

definition regularSegment :: "string \<Rightarrow> bool" where
  "regularSegment s = (s \<noteq> [] \<and> s \<noteq> ''.'' \<and> s \<noteq> ''..'')"

lemma normalizeSegments_append:
  "normalizeSegments b res (xs @ ys) = normalizeSegments b (normalizeSegments b res xs) ys"
  by (induction xs arbitrary: res) auto

lemma normalizeSegments_no_dotdot:
  "''..'' \<notin> set ys \<Longrightarrow>
   normalizeSegments b res ys = res @ filter (\<lambda>s. s \<noteq> [] \<and> s \<noteq> ''.'') ys"
  by (induction ys arbitrary: res) auto

lemma normalizeSegments_regular:
  "x \<in> set (normalizeSegments False res xs) \<Longrightarrow> x \<in> set res \<or> (x \<in> set xs \<and> regularSegment x)"
proof (induction xs arbitrary: res)
  case Nil then show ?case by simp
next
  case (Cons s xs)
  then show ?case
    by (fastforce simp: regularSegment_def dest: in_set_butlastD split: if_splits)
qed

lemma pathSegments_abs:
  assumes "\<forall>s\<in>set segs. s \<noteq> [] \<and> CHR ''/'' \<notin> set s"
  shows "pathSegments (CHR ''/'' # joinWith ''/'' segs) = segs"
    and "pathSegments (CHR ''/'' # joinWith ''/'' segs @ ''/'') = segs"
proof -
  have f: "filter (\<lambda>s. s \<noteq> []) segs = segs" using assms by (simp add: filter_id_conv)
  show "pathSegments (CHR ''/'' # joinWith ''/'' segs) = segs"
  proof (cases "segs = []")
    case True then show ?thesis by (simp add: pathSegments_def)
  next
    case False
    then show ?thesis
      using splitChar_joinWith[of segs "CHR ''/''"] assms f by (simp add: pathSegments_def)
  qed
  show "pathSegments (CHR ''/'' # joinWith ''/'' segs @ ''/'') = segs"
  proof (cases "segs = []")
    case True then show ?thesis by (simp add: pathSegments_def)
  next
    case False
    then have "splitChar CHR ''/'' (joinWith ''/'' segs @ ''/'') = segs @ [[]]"
      using splitChar_joinWith[of segs "CHR ''/''"] assms
        splitChar_append[of "CHR ''/''" "joinWith ''/'' segs" "[]"] by simp
    then show ?thesis using f by (simp add: pathSegments_def)
  qed
qed

lemma pathNormalize_abs:
  assumes "startsWith p ''/''"
  defines "N \<equiv> normalizeSegments False [] (splitChar CHR ''/'' p)"
  shows "startsWith (pathNormalize p) ''/''"
    and "pathSegments (pathNormalize p) = N"
proof -
  have pne: "p \<noteq> []" using assms by (auto simp: startsWith_def)
  have reg: "\<forall>s\<in>set N. s \<noteq> [] \<and> CHR ''/'' \<notin> set s"
    unfolding N_def
    by (auto dest!: normalizeSegments_regular simp: regularSegment_def dest: splitChar_no_sep)
  have jne: "N \<noteq> [] \<Longrightarrow> joinWith ''/'' N \<noteq> []"
    using joinWith_empty_iff[of N "''/''"] reg by simp
  show "startsWith (pathNormalize p) ''/''"
    using assms(1) pne by (simp add: pathNormalize_def Let_def startsWith_def)
  show "pathSegments (pathNormalize p) = N"
  proof (cases "N = []")
    case True
    then show ?thesis using assms(1) pne
      by (simp add: pathNormalize_def Let_def N_def[symmetric] pathSegments_def)
  next
    case False
    then show ?thesis using assms(1) pne jne pathSegments_abs[OF reg]
      by (simp add: pathNormalize_def Let_def N_def[symmetric])
  qed
qed

lemma set_splitChar_pathSegments:
  "set (splitChar CHR ''/'' q) \<subseteq> insert [] (set (pathSegments q))"
  by (auto simp: pathSegments_def)

lemma normalizeSegments_split:
  assumes "''..'' \<notin> set (pathSegments q)" "''.'' \<notin> set (pathSegments q)"
  shows "normalizeSegments False res (splitChar CHR ''/'' q) = res @ pathSegments q"
proof -
  have a: "''..'' \<notin> set (splitChar CHR ''/'' q)" and b: "''.'' \<notin> set (splitChar CHR ''/'' q)"
    using assms set_splitChar_pathSegments[of q] by auto
  have "filter (\<lambda>s. s \<noteq> [] \<and> s \<noteq> ''.'') (splitChar CHR ''/'' q) = pathSegments q"
    unfolding pathSegments_def using b by (intro filter_cong) auto
  then show ?thesis using normalizeSegments_no_dotdot[OF a, of False res] by simp
qed

lemma pathJoin2_abs:
  assumes "startsWith a ''/''"
  shows "startsWith (pathJoin [a, b]) ''/''"
    and "pathSegments (pathJoin [a, b]) =
           normalizeSegments False [] (splitChar CHR ''/'' a @ splitChar CHR ''/'' b)"
proof -
  have ane: "a \<noteq> []" using assms by (auto simp: startsWith_def)
  let ?P = "if b = [] then a else a @ ''/'' @ b"
  have pj: "pathJoin [a, b] = pathNormalize ?P"
    using ane by (simp add: pathJoin_def)
  have abs: "startsWith ?P ''/''"
    using assms ane by (cases a) (auto simp: startsWith_def)
  show "startsWith (pathJoin [a, b]) ''/''"
    unfolding pj by (rule pathNormalize_abs(1)[OF abs])
  have "normalizeSegments False [] (splitChar CHR ''/'' ?P) =
        normalizeSegments False [] (splitChar CHR ''/'' a @ splitChar CHR ''/'' b)"
    by (simp add: splitChar_append normalizeSegments_append)
  then show "pathSegments (pathJoin [a, b]) =
           normalizeSegments False [] (splitChar CHR ''/'' a @ splitChar CHR ''/'' b)"
    unfolding pj using pathNormalize_abs(2)[OF abs] by simp
qed

lemma outputDir_abs:
  assumes "startsWith (cwd e) ''/''"
  shows "startsWith (outputDir e opts) ''/''"
    and "''..'' \<notin> set (pathSegments (outputDir e opts))"
    and "''.'' \<notin> set (pathSegments (outputDir e opts))"
  using pathJoin2_abs[OF assms, of "outDir opts"]
  by (auto simp: outputDir_def regularSegment_def dest!: normalizeSegments_regular)

lemma pathSegments_dropWhile:
  "pathSegments (dropWhile (\<lambda>c. c = CHR ''/'') s) = pathSegments s"
  by (induction s) (auto simp: pathSegments_def)

lemma endsWith_slashD: "endsWith p ''/'' \<Longrightarrow> \<exists>q. p = q @ ''/''"
  unfolding endsWith_def by (metis append_take_drop_id)

lemma pathSegments_snoc_slash: "pathSegments (q @ ''/'') = pathSegments q"
  using splitChar_append[of "CHR ''/''" q "[]"] by (simp add: pathSegments_def)

lemma pathSegments_append_file:
  "CHR ''/'' \<notin> set f \<Longrightarrow> f \<noteq> [] \<Longrightarrow> pathSegments (q @ ''/'' @ f) = pathSegments q @ [f]"
  using splitChar_append[of "CHR ''/''" q f] by (simp add: pathSegments_def splitChar_id)

lemma pagePath_segments:
  "pathSegments (if endsWith p ''/'' then p @ ''index.html''
                 else if extname p = [] then p @ ''/index.html'' else p) =
   pathSegments p @ (if endsWith p ''/'' \<or> extname p = [] then [''index.html''] else [])"
proof (cases "endsWith p ''/''")
  case True
  then obtain q where q: "p = q @ ''/''" using endsWith_slashD by blast
  have "pathSegments (q @ ''/'' @ ''index.html'') = pathSegments q @ [''index.html'']"
    by (rule pathSegments_append_file) auto
  then show ?thesis using True q pathSegments_snoc_slash[of q] by simp
next
  case False
  have "pathSegments (p @ ''/'' @ ''index.html'') = pathSegments p @ [''index.html'']"
    by (rule pathSegments_append_file) auto
  then show ?thesis using False by simp
qed

section \<open>The robots predicate\<close>

text \<open>
  C5. A URL that parses is allowed exactly when no disallow pattern equals its path, is
  followed by \<open>/\<close> at the start of its path, or ends in \<open>*\<close> and has the text before
  the \<open>*\<close> as a prefix of the path. \<open>isUrlAllowed\<close> returns \<open>Inr True\<close> for crawlable.
\<close>

theorem isUrlAllowed_iff:
  assumes "parseURL e u None = Some parsed"
  shows "isUrlAllowed e u paths =
    Inr (\<not> (\<exists>p\<in>set paths. pathname parsed = p \<or> startsWith (pathname parsed) (p @ ''/'')
          \<or> (endsWith p ''*'' \<and> startsWith (pathname parsed) (butlast p))))"
  using assms by (simp add: isUrlAllowed_def list_ex_iff disallowedBy_iff)

theorem isUrlAllowed_iff_witness:
  "parseURL exEnv ''http://a/p/x'' None = Some (exUrl ''/p/x'' None None)
   \<and> isUrlAllowed exEnv ''http://a/p/x'' [''/q*'', ''/p''] = Inr False
   \<and> parseURL exEnv ''http://a/b'' None = Some (exUrl ''/b'' None None)
   \<and> isUrlAllowed exEnv ''http://a/b'' [''/q*'', ''/p''] = Inr True"
proof -
  have h1: "parseURL exEnv ''http://a/p/x'' None = Some (exUrl ''/p/x'' None None)"
    by code_simp
  have h2: "parseURL exEnv ''http://a/b'' None = Some (exUrl ''/b'' None None)"
    by code_simp
  have c1: "(\<not> (\<exists>p\<in>set [''/q*'', ''/p''].
              pathname (exUrl ''/p/x'' None None) = p
              \<or> startsWith (pathname (exUrl ''/p/x'' None None)) (p @ ''/'')
              \<or> (endsWith p ''*'' \<and> startsWith (pathname (exUrl ''/p/x'' None None)) (butlast p))))
            = False"
    by code_simp
  have c2: "(\<not> (\<exists>p\<in>set [''/q*'', ''/p''].
              pathname (exUrl ''/b'' None None) = p
              \<or> startsWith (pathname (exUrl ''/b'' None None)) (p @ ''/'')
              \<or> (endsWith p ''*'' \<and> startsWith (pathname (exUrl ''/b'' None None)) (butlast p))))
            = True"
    by code_simp
  have r1: "isUrlAllowed exEnv ''http://a/p/x'' [''/q*'', ''/p''] = Inr False"
    unfolding isUrlAllowed_iff[OF h1, of "[''/q*'', ''/p'']"] c1 by (rule refl)
  have r2: "isUrlAllowed exEnv ''http://a/b'' [''/q*'', ''/p''] = Inr True"
    unfolding isUrlAllowed_iff[OF h2, of "[''/q*'', ''/p'']"] c2 by (rule refl)
  from h1 r1 h2 r2 show ?thesis by blast
qed

section \<open>The path mappers\<close>

text \<open>
  C7. The asset path is \<open>assets/\<close>, the first six hexadecimal digits of the MD5 digest
  of the whole URL, \<open>-\<close>, and the non-empty components of the URL path joined by \<open>_\<close>
  (\<open>asset\<close> when there is none). It is determined by the URL's \<open>href\<close> and path alone.
\<close>

theorem localizeAssetPath_form:
  "localizeAssetPath e u =
     ''assets/'' @ take 6 (hexDigest (md5 e (href u))) @ ''-''
       @ (if pathSegments (pathname u) = [] then ''asset''
          else joinWith ''_'' (pathSegments (pathname u)))
   \<and> length (take 6 (hexDigest (md5 e (href u)))) = 6
   \<and> set (take 6 (hexDigest (md5 e (href u)))) \<subseteq> set ''0123456789abcdef''
   \<and> (href u = href v \<and> pathname u = pathname v
        \<longrightarrow> localizeAssetPath e u = localizeAssetPath e v)"
proof -
  let ?segs = "pathSegments (pathname u)"
  have ne: "\<forall>s\<in>set ?segs. s \<noteq> []" by (simp add: pathSegments_def)
  have ns: "\<forall>s\<in>set ?segs. CHR ''/'' \<notin> set s"
    by (auto simp: pathSegments_def dest: splitChar_no_sep)
  have "set (joinWith ''_'' ?segs) \<subseteq> set ''_'' \<union> \<Union> (set ` set ?segs)"
    by (rule set_joinWith)
  with ns have j: "CHR ''/'' \<notin> set (joinWith ''_'' ?segs)" by auto
  have a: "CHR ''/'' \<notin> set ''asset''" by simp
  have 1: "localizeAssetPath e u =
     ''assets/'' @ take 6 (hexDigest (md5 e (href u))) @ ''-''
       @ (if ?segs = [] then ''asset'' else joinWith ''_'' ?segs)"
    using joinWith_empty_iff[OF ne, of "''_''"] pathBasename_id[OF j] pathBasename_id[OF a]
    by (simp add: localizeAssetPath_def Let_def pathSegments_def)
  have 2: "length (take 6 (hexDigest (md5 e (href u)))) = 6"
    by (simp add: length_hexDigest)
  have 3: "set (take 6 (hexDigest (md5 e (href u)))) \<subseteq> set ''0123456789abcdef''"
    using set_hexDigest[of "md5 e (href u)"] set_take_subset[of 6 "hexDigest (md5 e (href u))"] by (rule_tac order_trans)
  have 4: "href u = href v \<and> pathname u = pathname v
        \<longrightarrow> localizeAssetPath e u = localizeAssetPath e v"
    by (simp add: localizeAssetPath_def)
  from 1 2 3 4 show ?thesis by blast
qed

theorem localizeAssetPath_form_witness:
  "href (exUrl ''/i.png'' None None) = href (exUrl ''/i.png'' None None\<lparr>origin := ''null''\<rparr>)
   \<and> pathname (exUrl ''/i.png'' None None) = pathname (exUrl ''/i.png'' None None\<lparr>origin := ''null''\<rparr>)
   \<and> localizeAssetPath exEnv (exUrl ''/i.png'' None None)
       = localizeAssetPath exEnv (exUrl ''/i.png'' None None\<lparr>origin := ''null''\<rparr>)
   \<and> localizeAssetPath exEnv (exUrl ''/i.png'' None None) = ''assets/000000-i.png''"
proof -
  let ?u = "exUrl ''/i.png'' None None"
  let ?v = "exUrl ''/i.png'' None None\<lparr>origin := ''null''\<rparr>"
  have h: "href ?u = href ?v \<and> pathname ?u = pathname ?v"
    by (simp add: href_def exUrl_def)
  have e1: "''assets/'' @ take 6 (hexDigest (md5 exEnv (href ?u))) @ ''-''
       @ (if pathSegments (pathname ?u) = [] then ''asset''
          else joinWith ''_'' (pathSegments (pathname ?u))) = ''assets/000000-i.png''"
    by code_simp
  note t = localizeAssetPath_form[of exEnv ?u ?v]
  from t h have r1: "localizeAssetPath exEnv ?u = localizeAssetPath exEnv ?v" by blast
  from t have "localizeAssetPath exEnv ?u = ''assets/'' @ take 6 (hexDigest (md5 exEnv (href ?u))) @ ''-''
       @ (if pathSegments (pathname ?u) = [] then ''asset''
          else joinWith ''_'' (pathSegments (pathname ?u)))" by blast
  with e1 have r2: "localizeAssetPath exEnv ?u = ''assets/000000-i.png''" by (simp only:)
  from h r1 r2 show ?thesis by blast
qed

text \<open>
  C8. The page path depends on the URL path only. \<open>index.html\<close> is appended to a path
  ending in \<open>/\<close>, \<open>/index.html\<close> to a path whose last component has no extension, and
  the path is otherwise kept; its leading slashes are removed and it is joined onto the
  output directory. For an absolute working directory and a URL path without \<open>.\<close> and
  \<open>..\<close> components (the URL parser leaves none), the result is absolute, its components
  are those of the output directory followed by those of the URL path and the appended
  file name, and none of them is \<open>..\<close>: the file lies under the output directory.
\<close>

theorem mapTargetUrlToFilePath_spec:
  assumes "startsWith (cwd e) ''/''"
    and "''..'' \<notin> set (pathSegments (pathname u))"
    and "''.'' \<notin> set (pathSegments (pathname u))"
  shows "mapTargetUrlToFilePath e opts u =
           pathJoin [outputDir e opts,
             dropWhile (\<lambda>c. c = CHR ''/'')
               (if endsWith (pathname u) ''/'' then pathname u @ ''index.html''
                else if extname (pathname u) = [] then pathname u @ ''/index.html''
                else pathname u)]
       \<and> startsWith (mapTargetUrlToFilePath e opts u) ''/''
       \<and> pathSegments (mapTargetUrlToFilePath e opts u) =
           pathSegments (outputDir e opts) @ pathSegments (pathname u)
             @ (if endsWith (pathname u) ''/'' \<or> extname (pathname u) = []
                then [''index.html''] else [])
       \<and> ''..'' \<notin> set (pathSegments (mapTargetUrlToFilePath e opts u))
       \<and> (pathname v = pathname u
            \<longrightarrow> mapTargetUrlToFilePath e opts v = mapTargetUrlToFilePath e opts u)"
proof -
  let ?p = "pathname u"
  let ?p' = "if endsWith ?p ''/'' then ?p @ ''index.html''
             else if extname ?p = [] then ?p @ ''/index.html'' else ?p"
  let ?rel = "dropWhile (\<lambda>c. c = CHR ''/'') ?p'"
  let ?tail = "if endsWith ?p ''/'' \<or> extname ?p = [] then [''index.html''] else []"
  have def: "mapTargetUrlToFilePath e opts u = pathJoin [outputDir e opts, ?rel]"
    by (simp add: mapTargetUrlToFilePath_def Let_def)
  have rel: "pathSegments ?rel = pathSegments ?p @ ?tail"
    using pagePath_segments[of ?p] by (simp only: pathSegments_dropWhile)
  have nd: "''..'' \<notin> set (pathSegments ?rel)" "''.'' \<notin> set (pathSegments ?rel)"
    using assms(2,3) unfolding rel by auto
  note od = outputDir_abs[OF assms(1), of opts]
  have segs: "pathSegments (pathJoin [outputDir e opts, ?rel]) =
              pathSegments (outputDir e opts) @ pathSegments ?rel"
    unfolding pathJoin2_abs(2)[OF od(1)] normalizeSegments_append
      normalizeSegments_split[OF od(2,3)]
    using normalizeSegments_split[OF nd] by simp
  have 2: "startsWith (mapTargetUrlToFilePath e opts u) ''/''"
    unfolding def by (rule pathJoin2_abs(1)[OF od(1)])
  have 3: "pathSegments (mapTargetUrlToFilePath e opts u) =
           pathSegments (outputDir e opts) @ pathSegments ?p @ ?tail"
    unfolding def segs rel by simp
  have 4: "''..'' \<notin> set (pathSegments (mapTargetUrlToFilePath e opts u))"
    unfolding def segs using od(2) nd(1) by simp
  have 5: "pathname v = pathname u
            \<longrightarrow> mapTargetUrlToFilePath e opts v = mapTargetUrlToFilePath e opts u"
    by (simp add: mapTargetUrlToFilePath_def)
  from def 2 3 4 5 show ?thesis by blast
qed

theorem mapTargetUrlToFilePath_spec_witness:
  "startsWith (cwd exEnv) ''/''
   \<and> ''..'' \<notin> set (pathSegments (pathname (exUrl ''/b'' (Some ''q=1'') (Some ''f''))))
   \<and> ''.'' \<notin> set (pathSegments (pathname (exUrl ''/b'' (Some ''q=1'') (Some ''f''))))
   \<and> mapTargetUrlToFilePath exEnv exOptions (exUrl ''/b'' (Some ''q=1'') (Some ''f''))
       = ''/w/o/b/index.html''
   \<and> pathSegments (mapTargetUrlToFilePath exEnv exOptions (exUrl ''/b'' (Some ''q=1'') (Some ''f'')))
       = [''w'', ''o'', ''b'', ''index.html'']
   \<and> pathname (exUrl ''/b'' None None) = pathname (exUrl ''/b'' (Some ''q=1'') (Some ''f''))
   \<and> mapTargetUrlToFilePath exEnv exOptions (exUrl ''/b'' None None)
       = mapTargetUrlToFilePath exEnv exOptions (exUrl ''/b'' (Some ''q=1'') (Some ''f''))"
proof -
  let ?u = "exUrl ''/b'' (Some ''q=1'') (Some ''f'')"
  have h1: "startsWith (cwd exEnv) ''/''" by code_simp
  have h2: "''..'' \<notin> set (pathSegments (pathname ?u))" by code_simp
  have h3: "''.'' \<notin> set (pathSegments (pathname ?u))" by code_simp
  have e1: "pathJoin [outputDir exEnv exOptions,
             dropWhile (\<lambda>c. c = CHR ''/'')
               (if endsWith (pathname ?u) ''/'' then pathname ?u @ ''index.html''
                else if extname (pathname ?u) = [] then pathname ?u @ ''/index.html''
                else pathname ?u)] = ''/w/o/b/index.html''"
    by code_simp
  have e2: "pathSegments (outputDir exEnv exOptions) @ pathSegments (pathname ?u)
             @ (if endsWith (pathname ?u) ''/'' \<or> extname (pathname ?u) = []
                then [''index.html''] else []) = [''w'', ''o'', ''b'', ''index.html'']"
    by code_simp
  have e3: "pathname (exUrl ''/b'' None None) = pathname ?u"
    by (simp add: exUrl_def)
  note t = mapTargetUrlToFilePath_spec[OF h1 h2 h3, of exOptions "exUrl ''/b'' None None"]
  from t have "mapTargetUrlToFilePath exEnv exOptions ?u = pathJoin [outputDir exEnv exOptions,
             dropWhile (\<lambda>c. c = CHR ''/'')
               (if endsWith (pathname ?u) ''/'' then pathname ?u @ ''index.html''
                else if extname (pathname ?u) = [] then pathname ?u @ ''/index.html''
                else pathname ?u)]" by blast
  with e1 have r1: "mapTargetUrlToFilePath exEnv exOptions ?u = ''/w/o/b/index.html''"
    by (simp only:)
  from t have "pathSegments (mapTargetUrlToFilePath exEnv exOptions ?u) =
     pathSegments (outputDir exEnv exOptions) @ pathSegments (pathname ?u)
             @ (if endsWith (pathname ?u) ''/'' \<or> extname (pathname ?u) = []
                then [''index.html''] else [])" by blast
  with e2 have r2: "pathSegments (mapTargetUrlToFilePath exEnv exOptions ?u)
       = [''w'', ''o'', ''b'', ''index.html'']" by (simp only:)
  from t e3 have r3: "mapTargetUrlToFilePath exEnv exOptions (exUrl ''/b'' None None)
       = mapTargetUrlToFilePath exEnv exOptions ?u" by blast
  from h1 h2 h3 r1 r2 e3 r3 show ?thesis by blast
qed

section \<open>The robots resolver\<close>

text \<open>
  C9. When the fetch of \<open>/robots.txt\<close> is rejected (network error or timeout) or answers
  with a status that is not a success, \<open>parseRobots\<close> returns the rules with no disallowed
  path and delay 0. Its result type has no error: every exception is caught.
\<close>

theorem parseRobots_failure:
  assumes "parseURL e ''/robots.txt'' (Some (href baseUrl)) = Some robotsUrl"
    and "fetch e RobotsFetch (href robotsUrl) = None
         \<or> (\<exists>r. fetch e RobotsFetch (href robotsUrl) = Some r \<and> \<not> ok r)"
  shows "parseRobots e baseUrl = \<lparr>disallowedPaths = [], crawlDelay = 0\<rparr>"
  using assms by (auto simp: parseRobots_def emptyRules_def)

theorem parseRobots_failure_witness:
  "parseURL exOffline ''/robots.txt'' (Some (href (exUrl ''/'' None None)))
     = Some (exUrl ''/robots.txt'' None None)
   \<and> fetch exOffline RobotsFetch (href (exUrl ''/robots.txt'' None None)) = None
   \<and> parseRobots exOffline (exUrl ''/'' None None) = \<lparr>disallowedPaths = [], crawlDelay = 0\<rparr>
   \<and> parseURL exNotFound ''/robots.txt'' (Some (href (exUrl ''/'' None None)))
     = Some (exUrl ''/robots.txt'' None None)
   \<and> map_option ok (fetch exNotFound RobotsFetch (href (exUrl ''/robots.txt'' None None)))
     = Some False
   \<and> parseRobots exNotFound (exUrl ''/'' None None) = \<lparr>disallowedPaths = [], crawlDelay = 0\<rparr>"
proof -
  have p1: "parseURL exOffline ''/robots.txt'' (Some (href (exUrl ''/'' None None)))
     = Some (exUrl ''/robots.txt'' None None)" by code_simp
  have f1: "fetch exOffline RobotsFetch (href (exUrl ''/robots.txt'' None None)) = None"
    by code_simp
  have p2: "parseURL exNotFound ''/robots.txt'' (Some (href (exUrl ''/'' None None)))
     = Some (exUrl ''/robots.txt'' None None)" by code_simp
  have f2: "map_option ok (fetch exNotFound RobotsFetch (href (exUrl ''/robots.txt'' None None)))
     = Some False" by code_simp
  then have f2': "\<exists>r. fetch exNotFound RobotsFetch (href (exUrl ''/robots.txt'' None None)) = Some r
     \<and> \<not> ok r" by auto
  have r1: "parseRobots exOffline (exUrl ''/'' None None) = \<lparr>disallowedPaths = [], crawlDelay = 0\<rparr>"
    by (rule parseRobots_failure[OF p1 disjI1[OF f1]])
  have r2: "parseRobots exNotFound (exUrl ''/'' None None) = \<lparr>disallowedPaths = [], crawlDelay = 0\<rparr>"
    by (rule parseRobots_failure[OF p2 disjI2[OF f2']])
  from p1 f1 r1 p2 f2 r2 show ?thesis by blast
qed

section \<open>The crawl keeps its invariants\<close>

lemma midInv_frame [simp]:
  "midInv e opts rules r (s\<lparr>written := f\<rparr>) = midInv e opts rules r s"
  "midInv e opts rules r (s\<lparr>assetSet := a\<rparr>) = midInv e opts rules r s"
  by (simp_all add: midInv_def)

lemma shouldAdd_True:
  "shouldAdd e opts rules s u = Inr True \<Longrightarrow>
     u \<notin> set (visitedPages s) \<and> u \<notin> set (pageQueue s)
     \<and> (respectRobots opts \<longrightarrow> isUrlAllowed e u (disallowedPaths rules) = Inr True)"
  by (auto simp: shouldAdd_def split: if_splits)

lemma rewriteAnchor_cases:
  assumes "rewriteAnchor e opts rules ro cu el s = Inr (el', s')"
  shows "s' = s \<or> (\<exists>u. shouldAdd e opts rules s u = Inr True
                    \<and> s' = s\<lparr>pageQueue := pageQueue s @ [u], pushed := pushed s @ [u]\<rparr>)"
  using assms
  by (auto simp: rewriteAnchor_def Let_def bindE_eq_Inr split: option.splits if_splits)

lemma midInv_push:
  assumes "midInv e opts rules r s" and "shouldAdd e opts rules s u = Inr True"
  shows "midInv e opts rules r (s\<lparr>pageQueue := pageQueue s @ [u], pushed := pushed s @ [u]\<rparr>)"
proof -
  from shouldAdd_True[OF assms(2)]
  have nv: "u \<notin> set (visitedPages s)" and nq: "u \<notin> set (pageQueue s)"
    and al: "respectRobots opts \<longrightarrow> isUrlAllowed e u (disallowedPaths rules) = Inr True"
    by auto
  from assms(1) have sub: "set (r # pushed s) \<subseteq> set (visitedPages s) \<union> set (pageQueue s)"
    by (simp add: midInv_def)
  with nv nq have np: "u \<notin> set (r # pushed s)" by blast
  show ?thesis using assms(1) nv nq al np unfolding midInv_def by auto
qed

lemma rewriteAnchor_midInv:
  assumes "rewriteAnchor e opts rules ro cu el s = Inr (el', s')"
    and "midInv e opts rules r s \<and> visitedPages s = V \<and> fetched s = F"
  shows "midInv e opts rules r s' \<and> visitedPages s' = V \<and> fetched s' = F"
  using rewriteAnchor_cases[OF assms(1)] assms(2) midInv_push by auto

lemma processPage_midInv:
  assumes "processPage e opts rules ro cu resp s = Inr s'" and "midInv e opts rules r s"
  shows "midInv e opts rules r s' \<and> visitedPages s' = visitedPages s \<and> fetched s' = fetched s"
proof -
  from assms(1) obtain d3 a3 d4 s4 f where
    a: "forEachElement isAnchorHref (rewriteAnchor e opts rules ro cu) d3 (s\<lparr>assetSet := a3\<rparr>)
          = Inr (d4, s4)"
    and w: "s' = s4\<lparr>written := f\<rparr>"
    by (auto simp: processPage_def bindE_eq_Inr split: option.splits if_splits)
  let ?P = "\<lambda>x. midInv e opts rules r x \<and> visitedPages x = visitedPages s \<and> fetched x = fetched s"
  have s0: "?P (s\<lparr>assetSet := a3\<rparr>)" using assms(2) by simp
  have "?P s4"
    by (rule forEachElement_frame[where P="?P", OF _ a s0]) (rule rewriteAnchor_midInv)
  then show ?thesis unfolding w by simp
qed

lemma crawlInv_initial: "crawlInv e opts rules (href root) (initialState root)"
  by (simp add: crawlInv_def initialState_def)

lemma midInv_crawlInv:
  assumes "midInv e opts rules r s" 
    and "int (length (visitedPages s)) \<le> max 0 (maxPages opts)"
    and "fetched s = visitedPages s"
    and "respectRobots opts \<longrightarrow>
           (\<forall>u\<in>set (visitedPages s). isUrlAllowed e u (disallowedPaths rules) = Inr True)"
  shows "crawlInv e opts rules r s"
  using assms unfolding midInv_def crawlInv_def by auto

lemma crawlInvD:
  assumes "crawlInv e opts rules r s"
  shows "distinct (visitedPages s)" and "distinct (pageQueue s)"
    and "set (visitedPages s) \<inter> set (pageQueue s) = {}"
    and "int (length (visitedPages s)) \<le> max 0 (maxPages opts)"
    and "distinct (r # pushed s)"
    and "fetched s = visitedPages s"
    and "set (pageQueue s) \<subseteq> set (r # pushed s)"
    and "set (r # pushed s) \<subseteq> set (visitedPages s) \<union> set (pageQueue s)
           \<or> (visitedPages s = [] \<and> pageQueue s = [] \<and> pushed s = [])"
    and "r \<in> set (pageQueue s) \<longrightarrow>
            visitedPages s = [] \<and> pushed s = [] \<and> pageQueue s = [r]"
    and "respectRobots opts \<longrightarrow>
           (\<forall>u\<in>set (pushed s). isUrlAllowed e u (disallowedPaths rules) = Inr True)"
    and "respectRobots opts \<longrightarrow>
           (\<forall>u\<in>set (visitedPages s). isUrlAllowed e u (disallowedPaths rules) = Inr True)"
  using assms unfolding crawlInv_def by blast+

lemma visit_midInv:
  assumes inv: "crawlInv e opts rules r s" and q: "pageQueue s = cur # rest"
    and nv: "cur \<notin> set (visitedPages s)"
  shows "midInv e opts rules r
           (s\<lparr>pageQueue := rest, visitedPages := visitedPages s @ [cur],
              fetched := fetched s @ [cur]\<rparr>)"
proof -
  note d = crawlInvD[OF inv]
  from d(8) q have sub: "set (r # pushed s) \<subseteq> set (visitedPages s) \<union> set (pageQueue s)"
    by auto
  from d(9) q have rq: "r \<in> set (pageQueue s) \<longrightarrow> pageQueue s = [r]"
    by blast
  have rv: "r \<in> set (visitedPages s @ [cur])"
  proof (cases "r \<in> set (pageQueue s)")
    case True
    with rq q have "cur = r" by auto
    then show ?thesis by simp
  next
    case False
    with sub show ?thesis by auto
  qed
  have 1: "distinct (visitedPages s @ [cur])" using d(1) nv by simp
  have 2: "distinct rest" using d(2) q by simp
  have 3: "set (visitedPages s @ [cur]) \<inter> set rest = {}" using d(2,3) q by auto
  have 4: "set rest \<subseteq> set (r # pushed s)" using d(7) q by auto
  have 5: "set (r # pushed s) \<subseteq> set (visitedPages s @ [cur]) \<union> set rest"
    using sub q by auto
  show ?thesis unfolding midInv_def using 1 2 3 4 5 rv d(5) d(10) by simp
qed

lemma skip_crawlInv:
  assumes inv: "crawlInv e opts rules r s" and q: "pageQueue s = cur # rest"
    and rr: "respectRobots opts" and dis: "isUrlAllowed e cur (disallowedPaths rules) = Inr False"
  shows "crawlInv e opts rules r (s\<lparr>pageQueue := rest\<rparr>)"
proof -
  note d = crawlInvD[OF inv]
  from d(10) rr dis have "cur \<notin> set (pushed s)" by auto
  moreover from d(7) q have "cur \<in> set (r # pushed s)" by auto
  ultimately have "cur = r" by simp
  with d(9) q have e: "visitedPages s = []" "pushed s = []" "rest = []" by auto
  show ?thesis unfolding crawlInv_def using e d(6) by simp
qed

lemma crawlIteration_crawlInv:
  assumes inv: "crawlInv e opts rules r s" and g: "loopGuard opts s"
    and it: "crawlIteration e opts rules ro s = Inr s'"
  shows "crawlInv e opts rules r s'"
proof -
  from g obtain cur rest where q: "pageQueue s = cur # rest"
    by (cases "pageQueue s") (auto simp: loopGuard_def)
  from g have b: "int (length (visitedPages s)) < maxPages opts" by (simp add: loopGuard_def)
  from inv q have nv: "cur \<notin> set (visitedPages s)" unfolding crawlInv_def by auto
  let ?s1 = "s\<lparr>pageQueue := rest, visitedPages := visitedPages s @ [cur],
              fetched := fetched s @ [cur]\<rparr>"
  from it q nv consider
      (skip) "respectRobots opts" "isUrlAllowed e cur (disallowedPaths rules) = Inr False"
             "s' = s\<lparr>pageQueue := rest\<rparr>"
    | (visit) "respectRobots opts \<longrightarrow> isUrlAllowed e cur (disallowedPaths rules) = Inr True"
              "s' = ?s1 \<or> (\<exists>resp. processPage e opts rules ro cur resp ?s1 = Inr s')"
    by (auto simp: crawlIteration_def Let_def bindE_eq_Inr split: if_splits option.splits)
  then show ?thesis
  proof cases
    case skip
    then show ?thesis using skip_crawlInv[OF inv q] by simp
  next
    case visit
    have m1: "midInv e opts rules r ?s1" by (rule visit_midInv[OF inv q nv])
    from visit(2) have m: "midInv e opts rules r s' \<and> visitedPages s' = visitedPages ?s1
                            \<and> fetched s' = fetched ?s1"
      using m1 processPage_midInv by blast
    show ?thesis
    proof (rule midInv_crawlInv)
      show "midInv e opts rules r s'" using m by simp
      show "int (length (visitedPages s')) \<le> max 0 (maxPages opts)" using m b by simp
      show "fetched s' = visitedPages s'" using m inv by (simp add: crawlInv_def)
      show "respectRobots opts \<longrightarrow>
           (\<forall>u\<in>set (visitedPages s'). isUrlAllowed e u (disallowedPaths rules) = Inr True)"
        using m inv visit(1) by (auto simp: crawlInv_def)
    qed
  qed
qed

lemma crawlAfter_crawlInv:
  "crawlInv e opts rules r s \<Longrightarrow> crawlAfter n e opts rules ro s = Some s'
     \<Longrightarrow> crawlInv e opts rules r s'"
proof (induction n arbitrary: s)
  case 0
  then show ?case by simp
next
  case (Suc n)
  from Suc.prems(2) obtain s1 where g: "loopGuard opts s"
    and it: "crawlIteration e opts rules ro s = Inr s1"
    and r: "crawlAfter n e opts rules ro s1 = Some s'"
    by (auto split: if_splits sum.splits)
  from crawlIteration_crawlInv[OF Suc.prems(1) g it] r show ?case by (rule Suc.IH)
qed

lemma crawlLoop_crawlAfter:
  "crawlLoop e opts rules ro s = Inr s' \<Longrightarrow>
     \<exists>n. crawlAfter n e opts rules ro s = Some s' \<and> \<not> loopGuard opts s'"
proof (induction e opts rules ro s rule: crawlLoop.induct)
  case (1 e opts rules ro s)
  show ?case
  proof (cases "loopGuard opts s")
    case False
    with "1.prems" have "s' = s" by (subst (asm) crawlLoop.simps) simp
    with False have "crawlAfter 0 e opts rules ro s = Some s' \<and> \<not> loopGuard opts s'" by simp
    then show ?thesis by blast
  next
    case True
    with "1.prems" obtain s1 where it: "crawlIteration e opts rules ro s = Inr s1"
      and l: "crawlLoop e opts rules ro s1 = Inr s'"
      by (subst (asm) crawlLoop.simps) (auto split: sum.splits)
    from "1.IH"[OF True it l] obtain n where
      "crawlAfter n e opts rules ro s1 = Some s'" "\<not> loopGuard opts s'" by blast
    with True it have "crawlAfter (Suc n) e opts rules ro s = Some s' \<and> \<not> loopGuard opts s'"
      by simp
    then show ?thesis by blast
  qed
qed

lemma crawlIteration_cases:
  assumes "crawlIteration e opts rules ro s = Inr s'" and "pageQueue s = cur # rest"
    and "cur \<notin> set (visitedPages s)"
  obtains (skip) "respectRobots opts" "isUrlAllowed e cur (disallowedPaths rules) = Inr False"
             "s' = s\<lparr>pageQueue := rest\<rparr>"
    | (visit) "respectRobots opts \<longrightarrow> isUrlAllowed e cur (disallowedPaths rules) = Inr True"
              "s' = s\<lparr>pageQueue := rest, visitedPages := visitedPages s @ [cur],
                       fetched := fetched s @ [cur]\<rparr>
               \<or> (\<exists>resp. processPage e opts rules ro cur resp
                      (s\<lparr>pageQueue := rest, visitedPages := visitedPages s @ [cur],
                         fetched := fetched s @ [cur]\<rparr>) = Inr s')"
  using assms
  by (auto simp: crawlIteration_def Let_def bindE_eq_Inr split: if_splits option.splits)

lemma disallowed_not_fetched:
  assumes inv: "crawlInv e opts rules r s"
    and "respectRobots opts" "isUrlAllowed e u (disallowedPaths rules) = Inr False"
  shows "u \<notin> set (fetched s) \<and> u \<notin> set (pushed s)"
proof -
  note d = crawlInvD[OF inv]
  from d(11) assms(2) have "\<forall>v\<in>set (visitedPages s). isUrlAllowed e v (disallowedPaths rules) = Inr True"
    by blast
  with assms(3) have a: "u \<notin> set (visitedPages s)" by auto
  from d(10) assms(2) have "\<forall>v\<in>set (pushed s). isUrlAllowed e v (disallowedPaths rules) = Inr True"
    by blast
  with assms(3) have b: "u \<notin> set (pushed s)" by auto
  from a b d(6) show ?thesis by simp
qed


lemma head_fetched_without_robots:
  assumes inv: "crawlInv e opts rules r s"
    and nr: "\<not> respectRobots opts" and q: "pageQueue s = u # rest"
    and it: "crawlIteration e opts rules ro s = Inr s'"
  shows "u \<in> set (fetched s')"
proof -
  note d = crawlInvD[OF inv]
  let ?s1 = "s\<lparr>pageQueue := rest, visitedPages := visitedPages s @ [u],
                 fetched := fetched s @ [u]\<rparr>"
  from d(3) q have nv: "u \<notin> set (visitedPages s)" by auto
  have m1: "midInv e opts rules r ?s1" by (rule visit_midInv[OF inv q nv])
  from it q nv show ?thesis
  proof (cases rule: crawlIteration_cases)
    case skip
    with nr show ?thesis by simp
  next
    case visit
    from visit(2) have "fetched s' = fetched ?s1"
    proof
      assume "s' = ?s1" then show ?thesis by simp
    next
      assume "\<exists>resp. processPage e opts rules ro u resp ?s1 = Inr s'"
      then obtain resp where "processPage e opts rules ro u resp ?s1 = Inr s'" by blast
      from processPage_midInv[OF this m1] show ?thesis by blast
    qed
    then show ?thesis by simp
  qed
qed

text \<open>
  C3. At the head of every iteration the visited set holds distinct URLs, at most
  \<open>maxPages\<close> of them (for a budget that is not negative), the queue holds distinct URLs,
  no URL is both visited and queued, and the URLs that ever entered the queue (the seed
  followed by the pushed ones, in order) are pairwise distinct. The same holds inside an
  iteration, after the current URL is marked visited and after each link of the page.
\<close>

theorem crawl_queue_visited_invariant:
  assumes "crawlAfter n e opts rules (origin root) (initialState root) = Some s"
  shows "int (length (visitedPages s)) \<le> max 0 (maxPages opts)
       \<and> distinct (visitedPages s)
       \<and> distinct (pageQueue s)
       \<and> set (visitedPages s) \<inter> set (pageQueue s) = {}
       \<and> distinct (href root # pushed s)
       \<and> (\<forall>cur rest a els els' s2.
            loopGuard opts s \<and> pageQueue s = cur # rest
            \<and> forEachElement isAnchorHref (rewriteAnchor e opts rules (origin root) cur) els
                (s\<lparr>pageQueue := rest, visitedPages := visitedPages s @ [cur],
                   fetched := fetched s @ [cur], assetSet := a\<rparr>) = Inr (els', s2)
            \<longrightarrow> int (length (visitedPages s2)) \<le> max 0 (maxPages opts)
                \<and> distinct (visitedPages s2)
                \<and> distinct (pageQueue s2)
                \<and> set (visitedPages s2) \<inter> set (pageQueue s2) = {}
                \<and> distinct (href root # pushed s2))"
proof -
  have inv: "crawlInv e opts rules (href root) s"
    by (rule crawlAfter_crawlInv[OF crawlInv_initial assms])
  note d = crawlInvD[OF inv]
  have mid: "int (length (visitedPages s2)) \<le> max 0 (maxPages opts)
                \<and> distinct (visitedPages s2)
                \<and> distinct (pageQueue s2)
                \<and> set (visitedPages s2) \<inter> set (pageQueue s2) = {}
                \<and> distinct (href root # pushed s2)"
    if g: "loopGuard opts s" and q: "pageQueue s = cur # rest"
      and f: "forEachElement isAnchorHref (rewriteAnchor e opts rules (origin root) cur) els
                (s\<lparr>pageQueue := rest, visitedPages := visitedPages s @ [cur],
                   fetched := fetched s @ [cur], assetSet := a\<rparr>) = Inr (els', s2)"
    for cur rest a els els' s2
  proof -
    let ?s1 = "s\<lparr>pageQueue := rest, visitedPages := visitedPages s @ [cur],
                   fetched := fetched s @ [cur]\<rparr>"
    let ?P = "\<lambda>x. midInv e opts rules (href root) x
                  \<and> visitedPages x = visitedPages s @ [cur] \<and> fetched x = fetched s @ [cur]"
    from d(3) q have nv: "cur \<notin> set (visitedPages s)" by auto
    have "midInv e opts rules (href root) ?s1" by (rule visit_midInv[OF inv q nv])
    then have s0: "?P (?s1\<lparr>assetSet := a\<rparr>)" by simp
    have p: "?P s2"
      by (rule forEachElement_frame[where P="?P", OF _ f s0]) (rule rewriteAnchor_midInv)
    from g have "int (length (visitedPages s)) < maxPages opts" by (simp add: loopGuard_def)
    with p have l: "int (length (visitedPages s2)) \<le> max 0 (maxPages opts)" by simp
    from p have m: "midInv e opts rules (href root) s2" by simp
    from m l show ?thesis unfolding midInv_def by blast
  qed
  from d(1-5) mid show ?thesis by blast
qed

theorem crawl_queue_visited_invariant_witness:
  "crawlAfter 2 exEnv exOptions exRules (origin exRoot) (initialState exRoot) = Some exFinal
   \<and> int (length (visitedPages exFinal)) \<le> max 0 (maxPages exOptions)
   \<and> set (visitedPages exFinal) \<inter> set (pageQueue exFinal) = {}
   \<and> distinct (href exRoot # pushed exFinal)
   \<and> crawlAfter 0 exEnv exOptions exRules (origin exRoot) (initialState exRoot)
       = Some (initialState exRoot)
   \<and> loopGuard exOptions (initialState exRoot)
   \<and> pageQueue (initialState exRoot) = ''http://a/'' # []
   \<and> forEachElement isAnchorHref
         (rewriteAnchor exEnv exOptions exRules (origin exRoot) ''http://a/'') (tl exDocument)
         ((initialState exRoot)\<lparr>pageQueue := [],
            visitedPages := visitedPages (initialState exRoot) @ [''http://a/''],
            fetched := fetched (initialState exRoot) @ [''http://a/''],
            assetSet := [''http://a/i.png'']\<rparr>)
       = Inr (tl exPage, exMid)
   \<and> set (visitedPages exMid) \<inter> set (pageQueue exMid) = {}
   \<and> distinct (href exRoot # pushed exMid)"
proof -
  have h1: "crawlAfter 2 exEnv exOptions exRules (origin exRoot) (initialState exRoot)
              = Some exFinal" by code_simp
  have h2: "crawlAfter 0 exEnv exOptions exRules (origin exRoot) (initialState exRoot)
              = Some (initialState exRoot)" by simp
  have h3: "loopGuard exOptions (initialState exRoot)" by code_simp
  have h4: "pageQueue (initialState exRoot) = ''http://a/'' # []" by code_simp
  have h5: "forEachElement isAnchorHref
         (rewriteAnchor exEnv exOptions exRules (origin exRoot) ''http://a/'') (tl exDocument)
         ((initialState exRoot)\<lparr>pageQueue := [],
            visitedPages := visitedPages (initialState exRoot) @ [''http://a/''],
            fetched := fetched (initialState exRoot) @ [''http://a/''],
            assetSet := [''http://a/i.png'']\<rparr>)
       = Inr (tl exPage, exMid)" by code_simp
  note t1 = crawl_queue_visited_invariant[OF h1]
  note t2 = crawl_queue_visited_invariant[OF h2]
  from t1 have a: "int (length (visitedPages exFinal)) \<le> max 0 (maxPages exOptions)"
    and b: "set (visitedPages exFinal) \<inter> set (pageQueue exFinal) = {}"
    and c: "distinct (href exRoot # pushed exFinal)" by blast+
  from t2 h3 h4 h5 have d: "set (visitedPages exMid) \<inter> set (pageQueue exMid) = {}"
    and e: "distinct (href exRoot # pushed exMid)" by blast+
  from h1 a b c h2 h3 h4 h5 d e show ?thesis by blast
qed

text \<open>
  C4. With \<open>respectRobots\<close> on, a URL that \<open>isUrlAllowed\<close> rejects is never passed to the
  page fetch and is never pushed onto the queue. With \<open>respectRobots\<close> off, the URL at
  the head of the queue is fetched whenever the loop runs (queue not empty, budget not
  used up), and a link is pushed when it is neither visited nor queued, whatever the
  disallow list says.
\<close>

theorem robots_disallow_respected:
  assumes "crawlAfter n e opts rules (origin root) (initialState root) = Some s"
  shows "(respectRobots opts \<longrightarrow>
           (\<forall>u. isUrlAllowed e u (disallowedPaths rules) = Inr False
                \<longrightarrow> u \<notin> set (fetched s) \<and> u \<notin> set (pushed s)))
       \<and> (\<not> respectRobots opts \<longrightarrow>
           (\<forall>u rest s'. loopGuard opts s \<and> pageQueue s = u # rest
                \<and> crawlIteration e opts rules (origin root) s = Inr s'
                \<longrightarrow> u \<in> set (fetched s')))
       \<and> (\<not> respectRobots opts \<longrightarrow>
           (\<forall>u. shouldAdd e opts rules s u
                  = Inr (u \<notin> set (visitedPages s) \<and> u \<notin> set (pageQueue s))))"
proof -
  have inv: "crawlInv e opts rules (href root) s"
    by (rule crawlAfter_crawlInv[OF crawlInv_initial assms])
  show ?thesis
  proof (intro conjI impI allI)
    fix u
    assume "\<not> respectRobots opts"
    then show "shouldAdd e opts rules s u
                 = Inr (u \<notin> set (visitedPages s) \<and> u \<notin> set (pageQueue s))"
      by (simp add: shouldAdd_def)
  next
    fix u
    assume "respectRobots opts" "isUrlAllowed e u (disallowedPaths rules) = Inr False"
    from disallowed_not_fetched[OF inv this] show "u \<notin> set (fetched s)" "u \<notin> set (pushed s)"
      by simp_all
  next
    fix u rest s'
    assume nr: "\<not> respectRobots opts"
      and h: "loopGuard opts s \<and> pageQueue s = u # rest
                \<and> crawlIteration e opts rules (origin root) s = Inr s'"
    from h have q: "pageQueue s = u # rest"
      and it: "crawlIteration e opts rules (origin root) s = Inr s'" by simp_all
    show "u \<in> set (fetched s')" by (rule head_fetched_without_robots[OF inv nr q it])
  qed
qed

theorem robots_disallow_respected_witness:
  "crawlAfter 2 exEnv exOptions exRules (origin exRoot) (initialState exRoot) = Some exFinal
   \<and> respectRobots exOptions
   \<and> isUrlAllowed exEnv ''http://a/p/x'' (disallowedPaths exRules) = Inr False
   \<and> ''http://a/p/x'' \<notin> set (fetched exFinal) \<and> ''http://a/p/x'' \<notin> set (pushed exFinal)
   \<and> crawlAfter 2 exEnv exOptionsNoRobots exRules (origin exRoot) (initialState exRoot)
       = Some exNoRobots2
   \<and> \<not> respectRobots exOptionsNoRobots
   \<and> loopGuard exOptionsNoRobots exNoRobots2
   \<and> pageQueue exNoRobots2 = ''http://a/p/x'' # []
   \<and> crawlIteration exEnv exOptionsNoRobots exRules (origin exRoot) exNoRobots2
       = Inr exNoRobots3
   \<and> ''http://a/p/x'' \<in> set (fetched exNoRobots3)
   \<and> shouldAdd exEnv exOptionsNoRobots exRules exNoRobots2 ''http://a/p/y'' = Inr True"
proof -
  have h1: "crawlAfter 2 exEnv exOptions exRules (origin exRoot) (initialState exRoot)
              = Some exFinal" by code_simp
  have h2: "respectRobots exOptions" by code_simp
  have h3: "isUrlAllowed exEnv ''http://a/p/x'' (disallowedPaths exRules) = Inr False"
    by code_simp
  have h4: "crawlAfter 2 exEnv exOptionsNoRobots exRules (origin exRoot) (initialState exRoot)
       = Some exNoRobots2" by code_simp
  have h5: "\<not> respectRobots exOptionsNoRobots" by code_simp
  have h6: "loopGuard exOptionsNoRobots exNoRobots2" by code_simp
  have h7: "pageQueue exNoRobots2 = ''http://a/p/x'' # []" by code_simp
  have h8: "crawlIteration exEnv exOptionsNoRobots exRules (origin exRoot) exNoRobots2
       = Inr exNoRobots3" by code_simp
  from robots_disallow_respected[OF h1] h2 h3
  have a: "''http://a/p/x'' \<notin> set (fetched exFinal) \<and> ''http://a/p/x'' \<notin> set (pushed exFinal)"
    by blast
  from robots_disallow_respected[OF h4] h5 h6 h7 h8
  have b: "''http://a/p/x'' \<in> set (fetched exNoRobots3)" by blast
  have h9: "(''http://a/p/y'' \<notin> set (visitedPages exNoRobots2)
             \<and> ''http://a/p/y'' \<notin> set (pageQueue exNoRobots2)) = True" by code_simp
  from robots_disallow_respected[OF h4] h5
  have "shouldAdd exEnv exOptionsNoRobots exRules exNoRobots2 ''http://a/p/y''
          = Inr (''http://a/p/y'' \<notin> set (visitedPages exNoRobots2)
                 \<and> ''http://a/p/y'' \<notin> set (pageQueue exNoRobots2))" by blast
  then have c: "shouldAdd exEnv exOptionsNoRobots exRules exNoRobots2 ''http://a/p/y'' = Inr True"
    by (simp only: h9)
  from h1 h2 h3 a h4 h5 h6 h7 h8 b c show ?thesis by blast
qed

section \<open>Links\<close>

lemma exClone: "cloneWebsite exEnv ''http://a/'' exOptions = Inr (exResult, exFinal)"
  by code_simp

lemma isSkippableHref_iff:
  "isSkippableHref (Some h) \<longleftrightarrow>
     h = [] \<or> startsWith h ''#'' \<or> startsWith h ''mailto:'' \<or> startsWith h ''tel:''
       \<or> startsWith h ''javascript:''"
  by (simp add: isSkippableHref_def SKIPPABLE_HREF_PREFIXES_def)

lemma href_clearSearchAndHash:
  "href (clearSearchAndHash u) = protocol u @ hostPart u @ pathname u"
  by (simp add: href_def clearSearchAndHash_def)

lemma pathname_clearSearchAndHash: "pathname (clearSearchAndHash u) = pathname u"
  by (simp add: clearSearchAndHash_def)

text \<open>
  C6, as amended. An anchor whose \<open>href\<close> is empty or starts with \<open>#\<close>, \<open>mailto:\<close>,
  \<open>tel:\<close> or \<open>javascript:\<close> is left as it is, and so is the state. For any other
  \<open>href\<close> that resolves against the page URL: when the target has the root's origin,
  the \<open>href\<close> becomes the target's path, with \<open>/\<close> appended when the path has no
  extension and does not end in \<open>/\<close>, and the target URL without query and fragment
  (its path as resolved, without the appended \<open>/\<close>) is pushed onto the queue exactly when
  that URL is neither visited nor queued and, if robots are respected, allowed. When the
  origin differs, the element and the whole state (the asset set included) stay as they
  are.
\<close>

theorem rewriteAnchor_spec:
  assumes "getAttr el ''href'' = Some h"
  shows "(h = [] \<or> startsWith h ''#'' \<or> startsWith h ''mailto:'' \<or> startsWith h ''tel:''
            \<or> startsWith h ''javascript:''
          \<longrightarrow> rewriteAnchor e opts rules rootOrigin currentUrl el s = Inr (el, s))
       \<and> (h \<noteq> [] \<and> \<not> startsWith h ''#'' \<and> \<not> startsWith h ''mailto:''
            \<and> \<not> startsWith h ''tel:'' \<and> \<not> startsWith h ''javascript:''
            \<and> parseURL e h (Some currentUrl) = Some parsed
            \<and> origin parsed = rootOrigin
            \<and> isUrlAllowed e (protocol parsed @ hostPart parsed @ pathname parsed)
                  (disallowedPaths rules) = Inr allowed
          \<longrightarrow> rewriteAnchor e opts rules rootOrigin currentUrl el s =
                Inr (setAttr el ''href''
                       (if extname (pathname parsed) = [] \<and> \<not> endsWith (pathname parsed) ''/''
                        then pathname parsed @ ''/'' else pathname parsed),
                     if protocol parsed @ hostPart parsed @ pathname parsed
                          \<notin> set (visitedPages s)
                        \<and> protocol parsed @ hostPart parsed @ pathname parsed
                          \<notin> set (pageQueue s)
                        \<and> (respectRobots opts \<longrightarrow> allowed)
                     then s\<lparr>pageQueue :=
                              pageQueue s @ [protocol parsed @ hostPart parsed @ pathname parsed],
                            pushed :=
                              pushed s @ [protocol parsed @ hostPart parsed @ pathname parsed]\<rparr>
                     else s))
       \<and> (h \<noteq> [] \<and> \<not> startsWith h ''#'' \<and> \<not> startsWith h ''mailto:''
            \<and> \<not> startsWith h ''tel:'' \<and> \<not> startsWith h ''javascript:''
            \<and> parseURL e h (Some currentUrl) = Some parsed
            \<and> origin parsed \<noteq> rootOrigin
          \<longrightarrow> rewriteAnchor e opts rules rootOrigin currentUrl el s = Inr (el, s))"
proof (intro conjI impI)
  assume "h = [] \<or> startsWith h ''#'' \<or> startsWith h ''mailto:'' \<or> startsWith h ''tel:''
            \<or> startsWith h ''javascript:''"
  then have "isSkippableHref (Some h)" by (simp add: isSkippableHref_iff)
  with assms show "rewriteAnchor e opts rules rootOrigin currentUrl el s = Inr (el, s)"
    by (simp add: rewriteAnchor_def)
next
  assume a: "h \<noteq> [] \<and> \<not> startsWith h ''#'' \<and> \<not> startsWith h ''mailto:''
            \<and> \<not> startsWith h ''tel:'' \<and> \<not> startsWith h ''javascript:''
            \<and> parseURL e h (Some currentUrl) = Some parsed
            \<and> origin parsed = rootOrigin
            \<and> isUrlAllowed e (protocol parsed @ hostPart parsed @ pathname parsed)
                  (disallowedPaths rules) = Inr allowed"
  then have ns: "\<not> isSkippableHref (Some h)" by (simp add: isSkippableHref_iff)
  from a have p: "parseURL e h (Some currentUrl) = Some parsed"
    and o: "origin parsed = rootOrigin"
    and al: "isUrlAllowed e (protocol parsed @ hostPart parsed @ pathname parsed)
                  (disallowedPaths rules) = Inr allowed" by simp_all
  show "rewriteAnchor e opts rules rootOrigin currentUrl el s =
                Inr (setAttr el ''href''
                       (if extname (pathname parsed) = [] \<and> \<not> endsWith (pathname parsed) ''/''
                        then pathname parsed @ ''/'' else pathname parsed),
                     if protocol parsed @ hostPart parsed @ pathname parsed
                          \<notin> set (visitedPages s)
                        \<and> protocol parsed @ hostPart parsed @ pathname parsed
                          \<notin> set (pageQueue s)
                        \<and> (respectRobots opts \<longrightarrow> allowed)
                     then s\<lparr>pageQueue :=
                              pageQueue s @ [protocol parsed @ hostPart parsed @ pathname parsed],
                            pushed :=
                              pushed s @ [protocol parsed @ hostPart parsed @ pathname parsed]\<rparr>
                     else s)"
    using assms p o al ns
    by (auto simp: rewriteAnchor_def Let_def shouldAdd_def prettyPathOf_def
          href_clearSearchAndHash pathname_clearSearchAndHash)
next
  assume a: "h \<noteq> [] \<and> \<not> startsWith h ''#'' \<and> \<not> startsWith h ''mailto:''
            \<and> \<not> startsWith h ''tel:'' \<and> \<not> startsWith h ''javascript:''
            \<and> parseURL e h (Some currentUrl) = Some parsed
            \<and> origin parsed \<noteq> rootOrigin"
  then have ns: "\<not> isSkippableHref (Some h)" by (simp add: isSkippableHref_iff)
  from a have p: "parseURL e h (Some currentUrl) = Some parsed"
    and o: "origin parsed \<noteq> rootOrigin" by simp_all
  show "rewriteAnchor e opts rules rootOrigin currentUrl el s = Inr (el, s)"
    using assms p o ns by (simp add: rewriteAnchor_def)
qed

theorem rewriteAnchor_spec_witness:
  "getAttr (exDocument ! 1) ''href'' = Some ''/b?q=1#f'' \<and> ''/b?q=1#f'' \<noteq> []
   \<and> \<not> startsWith ''/b?q=1#f'' ''#'' \<and> \<not> startsWith ''/b?q=1#f'' ''mailto:''
   \<and> \<not> startsWith ''/b?q=1#f'' ''tel:'' \<and> \<not> startsWith ''/b?q=1#f'' ''javascript:''
   \<and> parseURL exEnv ''/b?q=1#f'' (Some ''http://a/'') = Some (exUrl ''/b'' (Some ''q=1'') (Some ''f''))
   \<and> origin (exUrl ''/b'' (Some ''q=1'') (Some ''f'')) = ''http://a''
   \<and> isUrlAllowed exEnv ''http://a/b'' (disallowedPaths exRules) = Inr True
   \<and> rewriteAnchor exEnv exOptions exRules ''http://a'' ''http://a/'' (exDocument ! 1)
        (exMid\<lparr>pageQueue := [], pushed := []\<rparr>)
       = Inr (exPage ! 1, exMid)
   \<and> origin (exUrl ''/b'' (Some ''q=1'') (Some ''f'')) \<noteq> ''http://other''
   \<and> rewriteAnchor exEnv exOptions exRules ''http://other'' ''http://a/'' (exDocument ! 1) exMid
       = Inr (exDocument ! 1, exMid)
   \<and> getAttr exEmptyAnchor ''href'' = Some []
   \<and> rewriteAnchor exEnv exOptions exRules ''http://a'' ''http://a/'' exEmptyAnchor exMid
       = Inr (exEmptyAnchor, exMid)
   \<and> getAttr exMailAnchor ''href'' = Some ''mailto:x@a'' \<and> startsWith ''mailto:x@a'' ''mailto:''
   \<and> rewriteAnchor exEnv exOptions exRules ''http://a'' ''http://a/'' exMailAnchor exMid
       = Inr (exMailAnchor, exMid)"
proof -
  let ?u = "exUrl ''/b'' (Some ''q=1'') (Some ''f'')"
  let ?s = "exMid\<lparr>pageQueue := [], pushed := []\<rparr>"
  have h1: "getAttr (exDocument ! 1) ''href'' = Some ''/b?q=1#f''" by code_simp
  have h2: "''/b?q=1#f'' \<noteq> []" by simp
  have h3: "\<not> startsWith ''/b?q=1#f'' ''#''" by code_simp
  have h4: "\<not> startsWith ''/b?q=1#f'' ''mailto:''" by code_simp
  have h5: "\<not> startsWith ''/b?q=1#f'' ''tel:''" by code_simp
  have h6: "\<not> startsWith ''/b?q=1#f'' ''javascript:''" by code_simp
  have h7: "parseURL exEnv ''/b?q=1#f'' (Some ''http://a/'') = Some ?u" by code_simp
  have h8: "origin ?u = ''http://a''" by code_simp
  have h9: "isUrlAllowed exEnv ''http://a/b'' (disallowedPaths exRules) = Inr True" by code_simp
  have h9': "isUrlAllowed exEnv (protocol ?u @ hostPart ?u @ pathname ?u) (disallowedPaths exRules)
             = Inr True" by code_simp
  have h10: "origin ?u \<noteq> ''http://other''" by code_simp
  have h11: "getAttr exEmptyAnchor ''href'' = Some []" by code_simp
  have h12: "getAttr exMailAnchor ''href'' = Some ''mailto:x@a''" by code_simp
  have h13: "startsWith ''mailto:x@a'' ''mailto:''" by code_simp
  have e1: "(setAttr (exDocument ! 1) ''href''
                       (if extname (pathname ?u) = [] \<and> \<not> endsWith (pathname ?u) ''/''
                        then pathname ?u @ ''/'' else pathname ?u),
                     if protocol ?u @ hostPart ?u @ pathname ?u \<notin> set (visitedPages ?s)
                        \<and> protocol ?u @ hostPart ?u @ pathname ?u \<notin> set (pageQueue ?s)
                        \<and> (respectRobots exOptions \<longrightarrow> True)
                     then ?s\<lparr>pageQueue :=
                              pageQueue ?s @ [protocol ?u @ hostPart ?u @ pathname ?u],
                            pushed :=
                              pushed ?s @ [protocol ?u @ hostPart ?u @ pathname ?u]\<rparr>
                     else ?s) = (exPage ! 1, exMid)" by code_simp
  from rewriteAnchor_spec[OF h1, where e = exEnv and currentUrl = "''http://a/''"
         and parsed = ?u and rootOrigin = "''http://a''" and rules = exRules
         and allowed = True and opts = exOptions and s = ?s] h2 h3 h4 h5 h6 h7 h8 h9'
  have "rewriteAnchor exEnv exOptions exRules ''http://a'' ''http://a/'' (exDocument ! 1) ?s =
                Inr (setAttr (exDocument ! 1) ''href''
                       (if extname (pathname ?u) = [] \<and> \<not> endsWith (pathname ?u) ''/''
                        then pathname ?u @ ''/'' else pathname ?u),
                     if protocol ?u @ hostPart ?u @ pathname ?u \<notin> set (visitedPages ?s)
                        \<and> protocol ?u @ hostPart ?u @ pathname ?u \<notin> set (pageQueue ?s)
                        \<and> (respectRobots exOptions \<longrightarrow> True)
                     then ?s\<lparr>pageQueue :=
                              pageQueue ?s @ [protocol ?u @ hostPart ?u @ pathname ?u],
                            pushed :=
                              pushed ?s @ [protocol ?u @ hostPart ?u @ pathname ?u]\<rparr>
                     else ?s)" by blast
  then have r1: "rewriteAnchor exEnv exOptions exRules ''http://a'' ''http://a/'' (exDocument ! 1) ?s
       = Inr (exPage ! 1, exMid)" by (simp only: e1)
  from rewriteAnchor_spec[OF h1, where e = exEnv and currentUrl = "''http://a/''"
         and parsed = ?u and rootOrigin = "''http://other''" and rules = exRules
         and allowed = True and opts = exOptions and s = exMid] h2 h3 h4 h5 h6 h7 h10
  have r2: "rewriteAnchor exEnv exOptions exRules ''http://other'' ''http://a/'' (exDocument ! 1) exMid
       = Inr (exDocument ! 1, exMid)" by blast
  from rewriteAnchor_spec[OF h11, where e = exEnv and currentUrl = "''http://a/''"
         and rootOrigin = "''http://a''" and rules = exRules and opts = exOptions
         and s = exMid]
  have r3: "rewriteAnchor exEnv exOptions exRules ''http://a'' ''http://a/'' exEmptyAnchor exMid
       = Inr (exEmptyAnchor, exMid)" by blast
  from rewriteAnchor_spec[OF h12, where e = exEnv and currentUrl = "''http://a/''"
         and rootOrigin = "''http://a''" and rules = exRules and opts = exOptions
         and s = exMid] h13
  have r4: "rewriteAnchor exEnv exOptions exRules ''http://a'' ''http://a/'' exMailAnchor exMid
       = Inr (exMailAnchor, exMid)" by blast
  from h1 h2 h3 h4 h5 h6 h7 h8 h9 r1 h10 r2 h11 r3 h12 h13 r4 show ?thesis by blast
qed

text \<open>
  C6 as stated fails in two ways. An empty \<open>href\<close> is none of the four skipped kinds and
  resolves to the page itself, on the root's origin, yet the element is left alone and
  its \<open>href\<close> is not the page's path. And for the link to \<open>/b?q=1#f\<close> the \<open>href\<close> becomes
  the normalised path \<open>/b/\<close> while the URL pushed is \<open>http://a/b\<close>, not
  \<open>http://a/b/\<close>; it is pushed even when \<open>http://a/b/\<close> has already been visited.
\<close>

theorem rewriteAnchor_counterexample:
  "getAttr exEmptyAnchor ''href'' = Some []
   \<and> \<not> startsWith [] ''#'' \<and> \<not> startsWith [] ''mailto:''
   \<and> \<not> startsWith [] ''tel:'' \<and> \<not> startsWith [] ''javascript:''
   \<and> parseURL exEnv [] (Some ''http://a/'') = Some exRoot
   \<and> origin exRoot = ''http://a''
   \<and> rewriteAnchor exEnv exOptions exRules ''http://a'' ''http://a/'' exEmptyAnchor exMid
       = Inr (exEmptyAnchor, exMid)
   \<and> getAttr exEmptyAnchor ''href'' \<noteq> Some (prettyPathOf (pathname exRoot))
   \<and> getAttr (exDocument ! 1) ''href'' = Some ''/b?q=1#f''
   \<and> parseURL exEnv ''/b?q=1#f'' (Some ''http://a/'')
       = Some (exUrl ''/b'' (Some ''q=1'') (Some ''f''))
   \<and> origin (exUrl ''/b'' (Some ''q=1'') (Some ''f'')) = ''http://a''
   \<and> rewriteAnchor exEnv exOptions exRules ''http://a'' ''http://a/'' (exDocument ! 1)
        exSlashVisited
       = Inr (exPage ! 1, exSlashVisited\<lparr>pageQueue := [''http://a/b''],
                                          pushed := [''http://a/b'']\<rparr>)
   \<and> getAttr (exPage ! 1) ''href'' = Some ''/b/''
   \<and> ''http://a/b/'' \<in> set (visitedPages exSlashVisited)
   \<and> ''http://a/b/'' \<notin> set [''http://a/b'']"
  by code_simp

section \<open>Statistics\<close>

lemma cloneWebsite_pagesCloned:
  assumes "cloneWebsite e targetUrl opts = Inr (res, s)"
  shows "pagesCloned (statistics res) = length (visitedPages s)"
  using assms
  by (auto simp: cloneWebsite_def Let_def bindE_eq_Inr split: option.splits if_splits)

lemma crawlIteration_no_page:
  assumes "pageQueue s0 = cur # rest" and "cur \<notin> set (visitedPages s0)"
    and "respectRobots opts \<longrightarrow> isUrlAllowed e cur (disallowedPaths rules) = Inr True"
    and "fetch e PageFetch cur = None
         \<or> (\<exists>r. fetch e PageFetch cur = Some r
                \<and> \<not> includesStr (case contentType r of None \<Rightarrow> [] | Some t \<Rightarrow> t) ''text/html'')"
  shows "crawlIteration e opts rules ro s0 =
           Inr (s0\<lparr>pageQueue := rest, visitedPages := visitedPages s0 @ [cur],
                   fetched := fetched s0 @ [cur]\<rparr>)"
  using assms by (auto simp: crawlIteration_def Let_def)

lemma downloadAsset_not_ok:
  "fetch e AssetFetch a = Some r \<Longrightarrow> \<not> ok r \<Longrightarrow> downloadAsset e opts ro files a = files"
  by (simp add: downloadAsset_def split: option.splits)

lemma cloneWebsite_success:
  "cloneWebsite e targetUrl opts = Inr (res, s) \<Longrightarrow> success res"
  by (auto simp: cloneWebsite_def Let_def bindE_eq_Inr split: option.splits if_splits)

text \<open>
  C10. \<open>pagesCloned\<close> is the size of the visited set. An allowed URL taken from the queue
  whose fetch is rejected, or whose content type does not contain \<open>text/html\<close>, is added
  to the visited set and nothing is written for it. So there is a clone whose
  \<open>pagesCloned\<close> is greater than the number of pages it wrote.
\<close>

theorem pagesCloned_counts_visited:
  "(cloneWebsite e targetUrl opts = Inr (res, s)
      \<longrightarrow> pagesCloned (statistics res) = length (visitedPages s))
   \<and> (pageQueue s0 = cur # rest \<and> cur \<notin> set (visitedPages s0)
       \<and> (respectRobots opts \<longrightarrow> isUrlAllowed e cur (disallowedPaths rules) = Inr True)
       \<and> (fetch e PageFetch cur = None
           \<or> (\<exists>r. fetch e PageFetch cur = Some r
                  \<and> \<not> includesStr (case contentType r of None \<Rightarrow> [] | Some t \<Rightarrow> t)
                        ''text/html''))
      \<longrightarrow> crawlIteration e opts rules ro s0 =
           Inr (s0\<lparr>pageQueue := rest, visitedPages := visitedPages s0 @ [cur],
                   fetched := fetched s0 @ [cur]\<rparr>))
   \<and> (\<exists>e' targetUrl' opts' res' s'.
         cloneWebsite e' targetUrl' opts' = Inr (res', s')
         \<and> length (filter (\<lambda>f. isPageFile (snd f)) (written s')) < pagesCloned (statistics res'))"
proof -
  have c: "length (filter (\<lambda>f. isPageFile (snd f)) (written exFinal))
             < pagesCloned (statistics exResult)" by code_simp
  with exClone have 3: "\<exists>e' targetUrl' opts' res' s'.
         cloneWebsite e' targetUrl' opts' = Inr (res', s')
         \<and> length (filter (\<lambda>f. isPageFile (snd f)) (written s')) < pagesCloned (statistics res')"
    by blast
  from cloneWebsite_pagesCloned crawlIteration_no_page 3 show ?thesis by blast
qed

theorem pagesCloned_counts_visited_witness:
  "cloneWebsite exEnv ''http://a/'' exOptions = Inr (exResult, exFinal)
   \<and> pagesCloned (statistics exResult) = length (visitedPages exFinal)
   \<and> pageQueue exMid = ''http://a/b'' # [] \<and> ''http://a/b'' \<notin> set (visitedPages exMid)
   \<and> isUrlAllowed exEnv ''http://a/b'' (disallowedPaths exRules) = Inr True
   \<and> fetch exEnv PageFetch ''http://a/b'' = None
   \<and> crawlIteration exEnv exOptions exRules ''http://a'' exMid =
           Inr (exMid\<lparr>pageQueue := [], visitedPages := visitedPages exMid @ [''http://a/b''],
                   fetched := fetched exMid @ [''http://a/b'']\<rparr>)
   \<and> written (exMid\<lparr>pageQueue := [], visitedPages := visitedPages exMid @ [''http://a/b''],
                   fetched := fetched exMid @ [''http://a/b'']\<rparr>) = written exMid"
proof -
  have h1: "cloneWebsite exEnv ''http://a/'' exOptions = Inr (exResult, exFinal)"
    by code_simp
  have h2: "pageQueue exMid = ''http://a/b'' # []" by code_simp
  have h3: "''http://a/b'' \<notin> set (visitedPages exMid)" by code_simp
  have h4: "isUrlAllowed exEnv ''http://a/b'' (disallowedPaths exRules) = Inr True" by code_simp
  have h5: "fetch exEnv PageFetch ''http://a/b'' = None" by code_simp
  note t = pagesCloned_counts_visited[of exEnv "''http://a/''" exOptions exResult exFinal
             exMid "''http://a/b''" "[]" exRules "''http://a''"]
  from t h1 have a: "pagesCloned (statistics exResult) = length (visitedPages exFinal)" by blast
  from t h2 h3 h4 h5 have b: "crawlIteration exEnv exOptions exRules ''http://a'' exMid =
           Inr (exMid\<lparr>pageQueue := [], visitedPages := visitedPages exMid @ [''http://a/b''],
                   fetched := fetched exMid @ [''http://a/b'']\<rparr>)" by blast
  have c: "written (exMid\<lparr>pageQueue := [], visitedPages := visitedPages exMid @ [''http://a/b''],
                   fetched := fetched exMid @ [''http://a/b'']\<rparr>) = written exMid" by simp
  from h1 a h2 h3 h4 h5 b c show ?thesis by blast
qed

lemma rewriteAnchor_written:
  assumes "rewriteAnchor e opts rules ro cu el s = Inr (el', s')" and "written s = W"
  shows "written s' = W"
  using rewriteAnchor_cases[OF assms(1)] assms(2) by auto

lemma processPage_written:
  assumes "processPage e opts rules ro cu resp s = Inr s'"
  shows "\<exists>p doc. written s' = written s @ [(p, PageFile doc)]"
proof -
  from assms obtain d3 a3 d4 s4 p where
    a: "forEachElement isAnchorHref (rewriteAnchor e opts rules ro cu) d3 (s\<lparr>assetSet := a3\<rparr>)
          = Inr (d4, s4)"
    and w: "s' = s4\<lparr>written := written s4 @ [(p, PageFile d4)]\<rparr>"
    by (auto simp: processPage_def bindE_eq_Inr split: option.splits if_splits)
  have s0: "written (s\<lparr>assetSet := a3\<rparr>) = written s" by simp
  have "written s4 = written s"
    by (rule forEachElement_frame[where P="\<lambda>x. written x = written s", OF _ a s0])
       (rule rewriteAnchor_written)
  with w show ?thesis by simp
qed

lemma crawlIteration_written:
  assumes "crawlIteration e opts rules ro s = Inr s'"
    and "\<forall>f\<in>set (written s). isPageFile (snd f)"
  shows "\<forall>f\<in>set (written s'). isPageFile (snd f)"
proof (cases "pageQueue s")
  case Nil
  with assms show ?thesis by (simp add: crawlIteration_def)
next
  case (Cons cur rest)
  let ?s1 = "s\<lparr>pageQueue := rest, visitedPages := visitedPages s @ [cur],
                 fetched := fetched s @ [cur]\<rparr>"
  from assms(1) Cons have "written s' = written s
      \<or> (\<exists>resp. processPage e opts rules ro cur resp ?s1 = Inr s')"
    by (auto simp: crawlIteration_def Let_def bindE_eq_Inr split: if_splits option.splits)
  then show ?thesis
  proof
    assume "written s' = written s"
    with assms(2) show ?thesis by simp
  next
    assume "\<exists>resp. processPage e opts rules ro cur resp ?s1 = Inr s'"
    then obtain resp where "processPage e opts rules ro cur resp ?s1 = Inr s'" by blast
    from processPage_written[OF this] obtain p doc where
      "written s' = written s @ [(p, PageFile doc)]" by auto
    with assms(2) show ?thesis by (auto simp: isPageFile_def)
  qed
qed

lemma crawlAfter_written:
  "crawlAfter n e opts rules ro s = Some s' \<Longrightarrow> \<forall>f\<in>set (written s). isPageFile (snd f)
     \<Longrightarrow> \<forall>f\<in>set (written s'). isPageFile (snd f)"
proof (induction n arbitrary: s)
  case 0
  then show ?case by simp
next
  case (Suc n)
  from Suc.prems(1) obtain s1 where it: "crawlIteration e opts rules ro s = Inr s1"
    and r: "crawlAfter n e opts rules ro s1 = Some s'"
    by (auto split: if_splits sum.splits)
  from r crawlIteration_written[OF it Suc.prems(2)] show ?case by (rule Suc.IH)
qed

lemma downloadAsset_cases:
  "downloadAsset e opts ro files a = files
   \<or> (\<exists>p b. downloadSucceeds e opts a p \<and> downloadAsset e opts ro files a = files @ [(p, AssetFile b)])"
  by (auto simp: downloadAsset_def downloadSucceeds_def split: option.splits)

lemma downloadAssets_written:
  "f \<in> set (downloadAssets e opts ro files assets) \<Longrightarrow>
     f \<in> set files \<or> (\<exists>a\<in>set assets. downloadSucceeds e opts a (fst f))"
proof (induction assets arbitrary: files)
  case Nil
  then show ?case by (simp add: downloadAssets_def)
next
  case (Cons a assets)
  from Cons.prems have "f \<in> set (downloadAssets e opts ro (downloadAsset e opts ro files a) assets)"
    by (simp add: downloadAssets_def)
  from Cons.IH[OF this] downloadAsset_cases[of e opts ro files a]
  show ?case by auto
qed

lemma downloadAssets_skip_failed:
  assumes "fetch e AssetFetch a = Some r" and "\<not> ok r"
  shows "downloadAssets e opts ro files assets
           = downloadAssets e opts ro files (filter (\<lambda>x. x \<noteq> a) assets)"
proof -
  have "foldl (downloadAsset e opts ro) files assets
          = foldl (downloadAsset e opts ro) files (filter (\<lambda>x. x \<noteq> a) assets)"
    by (induction assets arbitrary: files) (simp_all add: downloadAsset_not_ok[OF assms])
  then show ?thesis by (simp add: downloadAssets_def)
qed

lemma cloneWebsite_assetFiles:
  assumes "cloneWebsite e targetUrl opts = Inr (res, s)" and "f \<in> set (assetFiles s)"
  shows "\<exists>a\<in>set (assetSet s). downloadSucceeds e opts a (fst f)"
proof -
  from assms(1) obtain root rules s0 where
    l: "crawlLoop e opts rules (origin root) (initialState root) = Inr s0"
    and s: "s = s0\<lparr>written := downloadAssets e opts (origin root) (written s0) (assetSet s0)\<rparr>"
    by (auto simp: cloneWebsite_def Let_def bindE_eq_Inr split: option.splits if_splits)
  from crawlLoop_crawlAfter[OF l] obtain n where
    "crawlAfter n e opts rules (origin root) (initialState root) = Some s0" by blast
  from crawlAfter_written[OF this]
  have pages: "\<forall>g\<in>set (written s0). isPageFile (snd g)" by (simp add: initialState_def)
  from assms(2) s have f: "f \<in> set (downloadAssets e opts (origin root) (written s0) (assetSet s0))"
    and np: "\<not> isPageFile (snd f)" by (simp_all add: assetFiles_def)
  from np pages have "f \<notin> set (written s0)" by blast
  with downloadAssets_written[OF f] s show ?thesis by simp
qed

lemma cloneWebsite_assetsDownloaded:
  assumes "cloneWebsite e targetUrl opts = Inr (res, s)"
  shows "assetsDownloaded (statistics res) = length (assetSet s)"
  using assms
  by (auto simp: cloneWebsite_def Let_def bindE_eq_Inr split: option.splits if_splits)

text \<open>
  C1, as amended. A download whose fetch answers with a status that is not a success
  writes nothing, and the other downloads go on as if that URL were not in the set. A
  clone that returns has \<open>success = True\<close>, every asset file it wrote is the file of an
  asset of the set whose fetch succeeded, and \<open>assetsDownloaded\<close> is the size of the asset
  set, whatever became of the downloads.
\<close>

theorem failed_asset_download:
  "(fetch e AssetFetch a = Some r \<and> \<not> ok r \<longrightarrow>
       downloadAsset e opts ro files a = files
       \<and> downloadAssets e opts ro files assets
           = downloadAssets e opts ro files (filter (\<lambda>x. x \<noteq> a) assets))
   \<and> (cloneWebsite e targetUrl opts = Inr (res, s) \<longrightarrow>
        success res
        \<and> assetsDownloaded (statistics res) = length (assetSet s)
        \<and> (\<forall>f\<in>set (assetFiles s). \<exists>a'\<in>set (assetSet s). downloadSucceeds e opts a' (fst f)))"
proof (intro conjI impI ballI)
  assume h: "fetch e AssetFetch a = Some r \<and> \<not> ok r"
  then have f: "fetch e AssetFetch a = Some r" and n: "\<not> ok r" by simp_all
  show "downloadAsset e opts ro files a = files" by (rule downloadAsset_not_ok[OF f n])
  show "downloadAssets e opts ro files assets
          = downloadAssets e opts ro files (filter (\<lambda>x. x \<noteq> a) assets)"
    by (rule downloadAssets_skip_failed[OF f n])
next
  assume c: "cloneWebsite e targetUrl opts = Inr (res, s)"
  show "success res" by (rule cloneWebsite_success[OF c])
  show "assetsDownloaded (statistics res) = length (assetSet s)"
    by (rule cloneWebsite_assetsDownloaded[OF c])
  fix f
  assume "f \<in> set (assetFiles s)"
  with c show "\<exists>a'\<in>set (assetSet s). downloadSucceeds e opts a' (fst f)"
    by (rule cloneWebsite_assetFiles)
qed

theorem failed_asset_download_witness:
  "map_option ok (fetch exEnv AssetFetch ''http://a/i.png'') = Some False
   \<and> downloadAsset exEnv exOptions ''http://a'' (written exFinal) ''http://a/i.png''
       = written exFinal
   \<and> cloneWebsite exEnv ''http://a/'' exOptions = Inr (exResult, exFinal)
   \<and> success exResult
   \<and> assetsDownloaded (statistics exResult) = length (assetSet exFinal)
   \<and> cloneWebsite exImageOk ''http://a/'' exOptions
       = Inr (exResult,
              exFinal\<lparr>written := written exFinal
                         @ [(''/w/o/assets/000000-i.png'', AssetFile ''PNG'')]\<rparr>)
   \<and> (''/w/o/assets/000000-i.png'', AssetFile ''PNG'')
       \<in> set (assetFiles (exFinal\<lparr>written := written exFinal
                         @ [(''/w/o/assets/000000-i.png'', AssetFile ''PNG'')]\<rparr>))
   \<and> downloadSucceeds exImageOk exOptions ''http://a/i.png'' ''/w/o/assets/000000-i.png''"
proof -
  let ?s = "exFinal\<lparr>written := written exFinal
                         @ [(''/w/o/assets/000000-i.png'', AssetFile ''PNG'')]\<rparr>"
  let ?r = "\<lparr>ok = False, contentType = None, body = Some []\<rparr>"
  have h0: "map_option ok (fetch exEnv AssetFetch ''http://a/i.png'') = Some False"
    by code_simp
  have h1: "fetch exEnv AssetFetch ''http://a/i.png'' = Some ?r" by code_simp
  have h2: "\<not> ok ?r" by simp
  have h3: "cloneWebsite exEnv ''http://a/'' exOptions = Inr (exResult, exFinal)"
    by code_simp
  have h4: "cloneWebsite exImageOk ''http://a/'' exOptions = Inr (exResult, ?s)"
    by code_simp
  have h5: "(''/w/o/assets/000000-i.png'', AssetFile ''PNG'') \<in> set (assetFiles ?s)"
    by code_simp
  have h6: "assetSet ?s = [''http://a/i.png'']" by code_simp
  note t1 = failed_asset_download[of exEnv "''http://a/i.png''" ?r exOptions "''http://a''"
              "written exFinal" "[]" "''http://a/''" exResult exFinal]
  note t2 = failed_asset_download[of exImageOk "''http://a/i.png''" ?r exOptions "''http://a''"
              "written exFinal" "[]" "''http://a/''" exResult ?s]
  from t1 h1 h2 have a: "downloadAsset exEnv exOptions ''http://a'' (written exFinal)
                           ''http://a/i.png'' = written exFinal" by blast
  from t1 h3 have b: "success exResult"
    and c: "assetsDownloaded (statistics exResult) = length (assetSet exFinal)" by blast+
  from t2 h4 h5 have "\<exists>a'\<in>set (assetSet ?s).
      downloadSucceeds exImageOk exOptions a' (fst (''/w/o/assets/000000-i.png'', AssetFile ''PNG''))"
    by blast
  then have d: "downloadSucceeds exImageOk exOptions ''http://a/i.png'' ''/w/o/assets/000000-i.png''"
    unfolding h6 by simp
  from h0 a h3 b c h4 h5 d show ?thesis by blast
qed

text \<open>
  C1 as stated fails on the example: the only asset answers 404 and no asset file is
  written, yet \<open>assetsDownloaded\<close> is 1.
\<close>

theorem assetsDownloaded_counterexample:
  "cloneWebsite exEnv ''http://a/'' exOptions = Inr (exResult, exFinal)
   \<and> success exResult
   \<and> assetSet exFinal = [''http://a/i.png'']
   \<and> map_option ok (fetch exEnv AssetFetch ''http://a/i.png'') = Some False
   \<and> assetFiles exFinal = []
   \<and> assetsDownloaded (statistics exResult) = 1
   \<and> assetsDownloaded (statistics exResult) \<noteq> length (assetFiles exFinal)"
  by code_simp

section \<open>What the clone absorbs\<close>

text \<open>
  When nothing fails but the network and the output directory can be emptied, the clone
  returns a result: no outcome of the robots fetch, of a page fetch or of an asset
  download makes it fail.
\<close>

lemma noLocalFailure_parse:
  "noLocalFailure e \<Longrightarrow> \<exists>y. parseURL e x b = Some y"
  by (simp add: noLocalFailure_def)

lemma noLocalFailure_decode:
  "noLocalFailure e \<Longrightarrow> \<exists>y. decodeURIComponent e x = Some y"
  by (simp add: noLocalFailure_def)

lemma rewriteImgAttr_returns:
  assumes "noLocalFailure e"
  shows "\<exists>y. rewriteImgAttr e cu a el assets = Inr y"
proof (cases "getAttr el a")
  case None
  then show ?thesis by (simp add: rewriteImgAttr_def)
next
  case (Some v)
  obtain u where p: "parseURL e v (Some cu) = Some u"
    using noLocalFailure_parse[OF assms] by blast
  show ?thesis
  proof (cases "nextImageUrl e v cu")
    case None
    with Some p show ?thesis by (simp add: rewriteImgAttr_def)
  next
    case (Some w)
    with \<open>getAttr el a = Some v\<close> p show ?thesis by (simp add: rewriteImgAttr_def)
  qed
qed

lemma fixedSrcsetUrl_returns:
  assumes "noLocalFailure e"
  shows "\<exists>y. fixedSrcsetUrl e u = Inr y"
proof (cases "nextImageMatch u")
  case None
  then show ?thesis by (simp add: fixedSrcsetUrl_def)
next
  case (Some m)
  obtain d where "decodeURIComponent e m = Some d"
    using noLocalFailure_decode[OF assms] by blast
  with Some show ?thesis by (simp add: fixedSrcsetUrl_def)
qed

lemma srcsetEntry_returns:
  assumes "noLocalFailure e"
  shows "\<exists>y. srcsetEntry e cu entry assets = Inr y"
proof (cases "wsTokens [] (trim entry)")
  case Nil
  then show ?thesis by (simp add: srcsetEntry_def)
next
  case (Cons u ds)
  obtain f where f: "fixedSrcsetUrl e u = Inr f"
    using fixedSrcsetUrl_returns[OF assms] by blast
  obtain a where "parseURL e f (Some cu) = Some a"
    using noLocalFailure_parse[OF assms] by blast
  with Cons f show ?thesis by (simp add: srcsetEntry_def)
qed

lemma srcsetEntries_returns:
  "noLocalFailure e \<Longrightarrow> \<exists>y. srcsetEntries e cu entries assets = Inr y"
proof (induction entries arbitrary: assets)
  case Nil
  then show ?case by simp
next
  case (Cons x xs)
  from srcsetEntry_returns[OF Cons.prems, of cu x assets]
  obtain p a1 where 1: "srcsetEntry e cu x assets = Inr (p, a1)" by (cases, auto)
  from Cons.IH[OF Cons.prems, of a1]
  obtain ps a2 where 2: "srcsetEntries e cu xs a1 = Inr (ps, a2)" by (cases, auto)
  from 1 2 show ?case by simp
qed

lemma rewriteSrcset_returns:
  assumes "noLocalFailure e"
  shows "\<exists>y. rewriteSrcset e cu el assets = Inr y"
proof (cases "getAttr el ''srcset''")
  case None
  then show ?thesis by (simp add: rewriteSrcset_def)
next
  case (Some srcset)
  obtain parts a1 where
    "srcsetEntries e cu (splitChar CHR '','' srcset) assets = Inr (parts, a1)"
    using srcsetEntries_returns[OF assms, of cu "splitChar CHR '','' srcset" assets] by auto
  with Some show ?thesis by (simp add: rewriteSrcset_def)
qed

lemma rewriteImg_returns:
  assumes "noLocalFailure e"
  shows "\<exists>y. rewriteImg e cu el assets = Inr y"
proof -
  obtain el1 a1 where 1: "rewriteImgAttr e cu ''src'' el assets = Inr (el1, a1)"
    using rewriteImgAttr_returns[OF assms, of cu "''src''" el assets] by (cases, auto)
  obtain el2 a2 where 2: "rewriteImgAttr e cu ''data-src'' el1 a1 = Inr (el2, a2)"
    using rewriteImgAttr_returns[OF assms, of cu "''data-src''" el1 a1] by (cases, auto)
  obtain el3 a3 where 3: "rewriteSrcset e cu el2 a2 = Inr (el3, a3)"
    using rewriteSrcset_returns[OF assms, of cu el2 a2] by (cases, auto)
  from 1 2 3 show ?thesis by (simp add: rewriteImg_def)
qed

lemma rewriteRef_returns:
  assumes "noLocalFailure e"
  shows "\<exists>y. rewriteRef e cu a el assets = Inr y"
proof (cases "getAttr el a")
  case None
  then show ?thesis by (simp add: rewriteRef_def)
next
  case (Some v)
  obtain u where "parseURL e v (Some cu) = Some u"
    using noLocalFailure_parse[OF assms] by blast
  with Some show ?thesis by (simp add: rewriteRef_def)
qed

lemma isUrlAllowed_returns:
  assumes "noLocalFailure e"
  shows "\<exists>y. isUrlAllowed e u paths = Inr y"
proof -
  obtain p where "parseURL e u None = Some p"
    using noLocalFailure_parse[OF assms] by blast
  then show ?thesis by (simp add: isUrlAllowed_def)
qed

lemma rewriteAnchor_returns:
  assumes "noLocalFailure e"
  shows "\<exists>y. rewriteAnchor e opts rules ro cu el s = Inr y"
proof -
  have sa: "\<exists>y. shouldAdd e opts rules s u = Inr y" for u
    using isUrlAllowed_returns[OF assms] by (auto simp: shouldAdd_def)
  have p: "\<exists>y. parseURL e h (Some cu) = Some y" for h
    by (rule noLocalFailure_parse[OF assms])
  show ?thesis
  proof (cases "getAttr el ''href''")
    case None
    then show ?thesis by (simp add: rewriteAnchor_def)
  next
    case (Some h)
    from p[of h] obtain parsed where pp: "parseURL e h (Some cu) = Some parsed" by blast
    from sa[of "href (clearSearchAndHash parsed)"] obtain add where
      "shouldAdd e opts rules s (href (clearSearchAndHash parsed)) = Inr add" by blast
    with Some pp show ?thesis by (simp add: rewriteAnchor_def Let_def)
  qed
qed

lemma forEachElement_returns:
  assumes "\<And>el x. \<exists>y. f el x = Inr y"
  shows "\<exists>y. forEachElement sel f els x = Inr y"
proof (induction els arbitrary: x)
  case Nil
  then show ?case by simp
next
  case (Cons el els)
  obtain el' x' where 1: "(if sel el then f el x else Inr (el, x)) = Inr (el', x')"
    using assms[of el x] by (cases "sel el") auto
  from Cons.IH[of x'] obtain els' x'' where 2: "forEachElement sel f els x' = Inr (els', x'')"
    by auto
  from 1 2 show ?case by simp
qed

lemma processPage_returns:
  assumes "noLocalFailure e" and "fetch e PageFetch cu = Some r"
  shows "\<exists>y. processPage e opts rules ro cu r s = Inr y"
proof -
  from assms have "body r \<noteq> None" unfolding noLocalFailure_def by blast
  then obtain html where b: "body r = Some html" by auto
  obtain d1 a1 where 1: "forEachElement isImg (rewriteImg e cu) (cheerioLoad e html) (assetSet s)
                           = Inr (d1, a1)"
    using forEachElement_returns[of "rewriteImg e cu" isImg "cheerioLoad e html" "assetSet s"]
      rewriteImg_returns[OF assms(1)] by auto
  obtain d2 a2 where 2: "forEachElement isLinkHref (rewriteRef e cu ''href'') d1 a1 = Inr (d2, a2)"
    using forEachElement_returns[of "rewriteRef e cu ''href''" isLinkHref d1 a1]
      rewriteRef_returns[OF assms(1)] by auto
  obtain d3 a3 where 3: "forEachElement isScriptSrc (rewriteRef e cu ''src'') d2 a2 = Inr (d3, a3)"
    using forEachElement_returns[of "rewriteRef e cu ''src''" isScriptSrc d2 a2]
      rewriteRef_returns[OF assms(1)] by auto
  obtain d4 s4 where 4: "forEachElement isAnchorHref (rewriteAnchor e opts rules ro cu) d3
                           (s\<lparr>assetSet := a3\<rparr>) = Inr (d4, s4)"
    using forEachElement_returns[of "rewriteAnchor e opts rules ro cu" isAnchorHref d3
            "s\<lparr>assetSet := a3\<rparr>"]
      rewriteAnchor_returns[OF assms(1)] by auto
  obtain u where 5: "parseURL e cu None = Some u"
    using noLocalFailure_parse[OF assms(1)] by blast
  from assms(1) have 6: "writeOk e (mapTargetUrlToFilePath e opts u)"
    by (simp add: noLocalFailure_def)
  from b 1 2 3 4 5 6 show ?thesis by (simp add: processPage_def)
qed

lemma crawlIteration_returns:
  assumes "noLocalFailure e"
  shows "\<exists>y. crawlIteration e opts rules ro s = Inr y"
proof (cases "pageQueue s")
  case Nil
  then show ?thesis by (simp add: crawlIteration_def)
next
  case (Cons cur rest)
  let ?s1 = "s\<lparr>pageQueue := rest, visitedPages := visitedPages s @ [cur],
                 fetched := fetched s @ [cur]\<rparr>"
  obtain allowed where a: "isUrlAllowed e cur (disallowedPaths rules) = Inr allowed"
    using isUrlAllowed_returns[OF assms] by blast
  have p: "\<exists>y. processPage e opts rules ro cur r ?s1 = Inr y"
    if "fetch e PageFetch cur = Some r" for r
    using processPage_returns[OF assms that] by blast
  show ?thesis
    using Cons a p by (auto simp: crawlIteration_def Let_def split: option.splits)
qed

lemma crawlLoop_returns:
  assumes "noLocalFailure e"
  shows "\<exists>y. crawlLoop e opts rules ro s = Inr y"
  using assms
proof (induction e opts rules ro s rule: crawlLoop.induct)
  case (1 e opts rules ro s)
  show ?case
  proof (cases "loopGuard opts s")
    case False
    then show ?thesis by (subst crawlLoop.simps) simp
  next
    case True
    obtain s1 where it: "crawlIteration e opts rules ro s = Inr s1"
      using crawlIteration_returns[OF "1.prems"] by blast
    from "1.IH"[OF True it "1.prems"] obtain y where "crawlLoop e opts rules ro s1 = Inr y"
      by blast
    with True it show ?thesis by (subst crawlLoop.simps) simp
  qed
qed

lemma cloneWebsite_returns:
  assumes "noLocalFailure e" and "emptyDirOk e (outputDir e opts)"
  shows "\<exists>res s. cloneWebsite e targetUrl opts = Inr (res, s)"
proof -
  obtain root where r: "parseURL e targetUrl None = Some root"
    using noLocalFailure_parse[OF assms(1)] by blast
  let ?rules = "if respectRobots opts then parseRobots e root else emptyRules"
  obtain s0 where "crawlLoop e opts ?rules (origin root) (initialState root) = Inr s0"
    using crawlLoop_returns[OF assms(1)] by blast
  with r assms(2) show ?thesis by (simp add: cloneWebsite_def Let_def)
qed

text \<open>
  C2, on three variants of the example: a link that does not parse, a page body that
  cannot be read and a page that cannot be written each make the whole clone fail.
\<close>

theorem cloneWebsite_propagates_page_failures:
  "cloneWebsite exBrokenLink ''http://a/'' exOptions = Inl InvalidUrl
   \<and> cloneWebsite exBodyFails ''http://a/'' exOptions = Inl BodyReadError
   \<and> cloneWebsite exDiskFull ''http://a/'' exOptions = Inl PageWriteError"
  by code_simp

end
